theory Spec2Isabelle
  imports Main "HOL-Library.Monad_Syntax" "HOL-Library.Sublist" "HOL-Library.Multiset"
begin

section \<open>The Huffman step engine of huffman.js\<close>

text \<open>
  The engine of \<^verbatim>\<open>huffman.js\<close> works on JavaScript objects: \<^verbatim>\<open>HuffmanNode\<close> instances
  that refer to each other, and one \<^verbatim>\<open>HuffmanCoding\<close> instance holding the code table,
  the step log and the cursor. Objects are modelled by an explicit store: a list of
  cells, the address of an object being its index. \<^verbatim>\<open>new HuffmanNode(...)\<close> appends a
  cell, a field assignment overwrites one. A reference is an \<open>addr option\<close>, with
  \<open>None\<close> for \<^verbatim>\<open>null\<close>. A reference that the program holds always leads to an
  allocated cell; the lemmas below carry this along (\<open>heap_tree\<close>) wherever the result
  of reading a cell matters.

  Frequencies are integers; JavaScript numbers are exact on them up to \<open>2^53\<close>, and
  the model does not look beyond that range. The identifier of a node comes from
  \<^verbatim>\<open>Math.random().toString(36).substr(2, 9)\<close>; the model takes the sequence of those
  strings as a parameter \<open>rnd\<close> and counts the draws made so far.
\<close>

subsection \<open>Data\<close>

type_synonym addr = nat

record HuffmanNode =
  char :: "string option"
  freq :: int
  left :: "addr option"
  right :: "addr option"
  id' :: string

record step =
  description :: string
  nodes :: "addr option list option"
  highlightNodes :: "string list"

text \<open>
  The fields of the \<^verbatim>\<open>HuffmanCoding\<close> instance, together with the object store and the
  number of random draws made so far.
\<close>

record state =
  heap :: "HuffmanNode list"
  draws :: nat
  codes :: "string option \<rightharpoonup> string"
  steps :: "step list"
  currentStep :: int
  animationSpeed :: int
  isPlaying :: bool
  animationTimeout :: "nat option"

text \<open>The constructor of \<^verbatim>\<open>HuffmanCoding\<close>, on an empty store.\<close>

definition new_HuffmanCoding :: state where
  "new_HuffmanCoding =
     \<lparr>heap = [], draws = 0, codes = Map.empty, steps = [], currentStep = 0,
      animationSpeed = 500, isPlaying = False, animationTimeout = None\<rparr>"

subsection \<open>HuffmanNode\<close>

text \<open>\<^verbatim>\<open>new HuffmanNode(char, freq, left, right)\<close>: a new cell with a fresh random id.\<close>

definition new_HuffmanNode ::
  "(nat \<Rightarrow> string) \<Rightarrow> string option \<Rightarrow> int \<Rightarrow> addr option \<Rightarrow> addr option \<Rightarrow> state
     \<Rightarrow> addr \<times> state" where
  "new_HuffmanNode rnd c f l r s =
     (length (heap s),
      s\<lparr>heap := heap s @ [\<lparr>char = c, freq = f, left = l, right = r, id' = rnd (draws s)\<rparr>],
        draws := Suc (draws s)\<rparr>)"

definition isLeaf :: "HuffmanNode \<Rightarrow> bool" where
  "isLeaf n = (left n = None \<and> right n = None)"

text \<open>Field assignments \<^verbatim>\<open>o.id = v\<close>, \<^verbatim>\<open>o.left = v\<close>, \<^verbatim>\<open>o.right = v\<close>.\<close>

definition set_id :: "addr \<Rightarrow> string \<Rightarrow> state \<Rightarrow> state" where
  "set_id a v s = s\<lparr>heap := (heap s)[a := (heap s ! a)\<lparr>id' := v\<rparr>]\<rparr>"

definition set_left :: "addr \<Rightarrow> addr option \<Rightarrow> state \<Rightarrow> state" where
  "set_left a v s = s\<lparr>heap := (heap s)[a := (heap s ! a)\<lparr>left := v\<rparr>]\<rparr>"

definition set_right :: "addr \<Rightarrow> addr option \<Rightarrow> state \<Rightarrow> state" where
  "set_right a v s = s\<lparr>heap := (heap s)[a := (heap s ! a)\<lparr>right := v\<rparr>]\<rparr>"

subsection \<open>Recording steps\<close>

text \<open>
  \<^verbatim>\<open>cloneNode\<close> follows references, so it returns only on a structure without cycles:
  the result \<open>None\<close> stands for a call that does not return.
\<close>

partial_function (option) cloneNode ::
  "(nat \<Rightarrow> string) \<Rightarrow> addr option \<Rightarrow> state \<Rightarrow> (addr option \<times> state) option" where
  "cloneNode rnd node s =
     (case node of
        None \<Rightarrow> Some (None, s)
      | Some a \<Rightarrow>
          (case new_HuffmanNode rnd (char (heap s ! a)) (freq (heap s ! a)) None None s of
             (clone, s1) \<Rightarrow>
               do {
                 let s2 = set_id clone (id' (heap s1 ! a)) s1;
                 (l, s3) \<leftarrow> cloneNode rnd (left (heap s2 ! a)) s2;
                 let s4 = set_left clone l s3;
                 (r, s5) \<leftarrow> cloneNode rnd (right (heap s4 ! a)) s4;
                 let s6 = set_right clone r s5;
                 Some (Some clone, s6)
               }))"

declare cloneNode.simps [code]

text \<open>\<^verbatim>\<open>nodes.map(n => this.cloneNode(n))\<close>, from left to right.\<close>

fun map_cloneNode ::
  "(nat \<Rightarrow> string) \<Rightarrow> addr list \<Rightarrow> state \<Rightarrow> (addr option list \<times> state) option" where
  "map_cloneNode rnd [] s = Some ([], s)"
| "map_cloneNode rnd (n # ns) s =
     do {
       (c, s1) \<leftarrow> cloneNode rnd (Some n) s;
       (cs, s2) \<leftarrow> map_cloneNode rnd ns s1;
       Some (c # cs, s2)
     }"

text \<open>
  \<^verbatim>\<open>addStep(description, nodes = null, highlightNodes = [])\<close>. A call that leaves an
  argument out passes its default here. An array is truthy, so
  \<^verbatim>\<open>highlightNodes || []\<close> is the array itself.
\<close>

definition addStep ::
  "(nat \<Rightarrow> string) \<Rightarrow> string \<Rightarrow> addr list option \<Rightarrow> string list \<Rightarrow> state \<Rightarrow> state option" where
  "addStep rnd d ns hl s =
     (case ns of
        None \<Rightarrow>
          Some (s\<lparr>steps := steps s @ [\<lparr>description = d, nodes = None, highlightNodes = hl\<rparr>]\<rparr>)
      | Some xs \<Rightarrow>
          do {
            (cs, s1) \<leftarrow> map_cloneNode rnd xs s;
            Some (s1\<lparr>steps := steps s1 @
                     [\<lparr>description = d, nodes = Some cs, highlightNodes = hl\<rparr>]\<rparr>)
          })"

subsection \<open>Building the tree\<close>

text \<open>Decimal rendering of an integer, as a template literal renders a number.\<close>

fun digits :: "nat \<Rightarrow> string" where
  "digits n =
     (if n < 10 then [char_of (48 + n)] else digits (n div 10) @ [char_of (48 + n mod 10)])"

definition number_toString :: "int \<Rightarrow> string" where
  "number_toString i = (if i < 0 then CHR ''-'' # digits (nat (- i)) else digits (nat i))"

text \<open>\<^verbatim>\<open>node.char || 'internal'\<close>: \<^verbatim>\<open>null\<close> and the empty string are falsy.\<close>

definition char_or_internal :: "HuffmanNode \<Rightarrow> string" where
  "char_or_internal n =
     (case char n of None \<Rightarrow> ''internal'' | Some c \<Rightarrow> if c = [] then ''internal'' else c)"

definition combining_description :: "HuffmanNode \<Rightarrow> HuffmanNode \<Rightarrow> string" where
  "combining_description l r =
     ''Combining nodes '' @ [CHR 0x27] @ char_or_internal l @ [CHR 0x27] @ '' ('' @
     number_toString (freq l) @ '') and '' @ [CHR 0x27] @ char_or_internal r @ [CHR 0x27] @
     '' ('' @ number_toString (freq r) @ '')''"

text \<open>
  \<^verbatim>\<open>nodes.sort((a, b) => a.freq - b.freq)\<close>: the sort of an array is stable, as is
  \<^const>\<open>sort_key\<close>.
\<close>

definition sort_by_freq :: "state \<Rightarrow> addr list \<Rightarrow> addr list" where
  "sort_by_freq s ns = sort_key (\<lambda>a. freq (heap s ! a)) ns"

text \<open>The loop creating the leaves, over the entries of the map in insertion order.\<close>

fun create_leaves ::
  "(nat \<Rightarrow> string) \<Rightarrow> (string \<times> int) list \<Rightarrow> addr list \<Rightarrow> state \<Rightarrow> addr list \<times> state" where
  "create_leaves rnd [] ns s = (ns, s)"
| "create_leaves rnd ((c, f) # es) ns s =
     (case new_HuffmanNode rnd (Some c) f None None s of
        (a, s1) \<Rightarrow> create_leaves rnd es (ns @ [a]) s1)"

text \<open>
  The body of the \<^verbatim>\<open>while\<close> loop. \<^verbatim>\<open>shift()\<close> on an empty array gives
  \<^verbatim>\<open>undefined\<close>, and reading a field of it throws: that is the result \<open>None\<close> of the
  last case, which the loop condition excludes.
\<close>

definition loop_body ::
  "(nat \<Rightarrow> string) \<Rightarrow> addr list \<Rightarrow> state \<Rightarrow> (addr list \<times> state) option" where
  "loop_body rnd ns s =
     (case sort_by_freq s ns of
        l # r # rest \<Rightarrow>
          (case new_HuffmanNode rnd None (freq (heap s ! l) + freq (heap s ! r))
                  (Some l) (Some r) s of
             (t, s1) \<Rightarrow>
               do {
                 s2 \<leftarrow> addStep rnd (combining_description (heap s ! l) (heap s ! r))
                         (Some (t # rest)) [id' (heap s ! l), id' (heap s ! r)] s1;
                 (case new_HuffmanNode rnd None (freq (heap s2 ! l) + freq (heap s2 ! r))
                         (Some l) (Some r) s2 of
                    (internalNode, s3) \<Rightarrow> Some (internalNode # rest, s3))
               })
      | _ \<Rightarrow> None)"

lemma loop_body_length:
  "loop_body rnd ns s = Some (ns', s') \<Longrightarrow> Suc (length ns') = length ns"
proof -
  assume a: "loop_body rnd ns s = Some (ns', s')"
  have len: "length (sort_by_freq s ns) = length ns"
    by (simp add: sort_by_freq_def)
  from a obtain l r rest i where "sort_by_freq s ns = l # r # rest" and "ns' = i # rest"
    by (auto simp: loop_body_def split: list.splits prod.splits bind_splits)
  then show ?thesis using len by simp
qed

function merge_loop ::
  "(nat \<Rightarrow> string) \<Rightarrow> addr list \<Rightarrow> state \<Rightarrow> (addr list \<times> state) option" where
  "merge_loop rnd ns s =
     (if length ns > 1 then
        (case loop_body rnd ns s of
           None \<Rightarrow> None
         | Some (ns', s') \<Rightarrow> merge_loop rnd ns' s')
      else Some (ns, s))"
  by pat_completeness auto
termination
  by (relation "measure (\<lambda>(rnd, ns, s). length ns)") (auto dest: loop_body_length)

declare merge_loop.simps [simp del]

text \<open>
  \<^verbatim>\<open>buildTree(freqMap)\<close>. The map is the list of its entries, in insertion order;
  the result is \<^verbatim>\<open>nodes[0]\<close>, which is \<^verbatim>\<open>undefined\<close> (here \<open>None\<close>) for an empty
  array.
\<close>

definition buildTree ::
  "(nat \<Rightarrow> string) \<Rightarrow> (string \<times> int) list \<Rightarrow> state \<Rightarrow> (addr option \<times> state) option" where
  "buildTree rnd freqMap s =
     (case create_leaves rnd freqMap [] (s\<lparr>steps := [], currentStep := 0\<rparr>) of
        (ns0, s1) \<Rightarrow>
          do {
            let ns1 = sort_by_freq s1 ns0;
            s2 \<leftarrow> addStep rnd ''Starting with the following nodes:'' (Some ns1) [] s1;
            (ns2, s3) \<leftarrow> merge_loop rnd ns1 s2;
            s4 \<leftarrow> addStep rnd ''Huffman tree construction complete!'' None [] s3;
            Some (case ns2 of [] \<Rightarrow> None | a # _ \<Rightarrow> Some a, s4)
          })"

text \<open>
  The call \<^verbatim>\<open>buildTree(freqMap)\<close> on an argument that need not be a \<^verbatim>\<open>Map\<close>. The first
  statement that can throw is \<^verbatim>\<open>freqMap.entries()\<close>, a \<^verbatim>\<open>TypeError\<close> on \<^verbatim>\<open>null\<close> and on an
  object without that method; the assignments to \<^verbatim>\<open>this.steps\<close> and \<^verbatim>\<open>this.currentStep\<close>
  before it have run by then, and an exception leaves them in place. The outcome is the
  error with the state at the throw, or the result with the state at the return.
\<close>

datatype js_value = JS_null | JS_object "(string \<times> int) list" | JS_Map "(string \<times> int) list"

datatype js_error = TypeError

definition buildTree_call ::
  "(nat \<Rightarrow> string) \<Rightarrow> js_value \<Rightarrow> state
     \<Rightarrow> ((js_error \<times> state) + (addr option \<times> state)) option" where
  "buildTree_call rnd freqMap s =
     (case freqMap of
        JS_null \<Rightarrow> Some (Inl (TypeError, s\<lparr>steps := [], currentStep := 0\<rparr>))
      | JS_object props \<Rightarrow> Some (Inl (TypeError, s\<lparr>steps := [], currentStep := 0\<rparr>))
      | JS_Map entries \<Rightarrow> map_option Inr (buildTree rnd entries s))"

subsection \<open>Codes\<close>

text \<open>
  \<^verbatim>\<open>generateCodes(node, path = '')\<close>. The result \<open>None\<close> stands for a call that does not
  return normally: \<^verbatim>\<open>node.isLeaf()\<close> throws on \<^verbatim>\<open>null\<close>, and the recursion does not end
  on a cyclic structure.
\<close>

partial_function (option) generateCodes ::
  "addr option \<Rightarrow> string \<Rightarrow> state \<Rightarrow> state option" where
  "generateCodes node path s =
     (case node of
        None \<Rightarrow> None
      | Some a \<Rightarrow>
          if isLeaf (heap s ! a) then
            Some (s\<lparr>codes := (codes s)(char (heap s ! a) \<mapsto> path)\<rparr>)
          else
            do {
              s1 \<leftarrow> generateCodes (left (heap s ! a)) (path @ ''0'') s;
              generateCodes (right (heap s1 ! a)) (path @ ''1'') s1
            })"

declare generateCodes.simps [code]

subsection \<open>Navigation\<close>

definition getCurrentStep :: "state \<Rightarrow> step option" where
  "getCurrentStep s =
     (if 0 \<le> currentStep s \<and> currentStep s < int (length (steps s))
      then Some (steps s ! nat (currentStep s)) else None)"

definition nextStep :: "state \<Rightarrow> bool \<times> state" where
  "nextStep s =
     (if currentStep s < int (length (steps s)) - 1
      then (True, s\<lparr>currentStep := currentStep s + 1\<rparr>)
      else (False, s))"

definition prevStep :: "state \<Rightarrow> bool \<times> state" where
  "prevStep s =
     (if currentStep s > 0
      then (True, s\<lparr>currentStep := currentStep s - 1\<rparr>)
      else (False, s))"

text \<open>
  \<^verbatim>\<open>reset()\<close> and \<^verbatim>\<open>pause()\<close>. A timer handle is a number; \<^verbatim>\<open>if (this.animationTimeout)\<close>
  is false for \<^verbatim>\<open>null\<close> and for 0, and then the field is left as it is. Of \<^verbatim>\<open>clearTimeout\<close>
  only the assignment of \<^verbatim>\<open>null\<close> that follows it is kept.
\<close>

definition clear_timer :: "nat option \<Rightarrow> nat option" where
  "clear_timer t = (case t of None \<Rightarrow> None | Some n \<Rightarrow> if n = 0 then Some n else None)"

definition reset :: "state \<Rightarrow> state" where
  "reset s =
     s\<lparr>currentStep := 0, codes := Map.empty,
       animationTimeout := clear_timer (animationTimeout s), isPlaying := False\<rparr>"

definition pause :: "state \<Rightarrow> state" where
  "pause s = s\<lparr>isPlaying := False, animationTimeout := clear_timer (animationTimeout s)\<rparr>"

text \<open>\<^verbatim>\<open>setAnimationSpeed(speed)\<close>.\<close>

definition setAnimationSpeed :: "int \<Rightarrow> state \<Rightarrow> state" where
  "setAnimationSpeed speed s = s\<lparr>animationSpeed := speed * 2\<rparr>"

section \<open>Structures in the store\<close>

text \<open>
  A \<open>tree\<close> describes the structure reachable from a reference: at every node its
  address and its fields, \<open>Null\<close> for a \<^verbatim>\<open>null\<close> reference. \<open>heap_tree h t\<close> says
  that the store \<open>h\<close> holds \<open>t\<close> at the addresses \<open>t\<close> names, and \<open>repr h p t\<close> that
  the reference \<open>p\<close> leads to \<open>t\<close> in \<open>h\<close>. Two trees have the same content when they
  agree on everything but the addresses.
\<close>

datatype tree = Null | Node addr "string option" int tree tree string

fun ref :: "tree \<Rightarrow> addr option" where
  "ref Null = None"
| "ref (Node a c f l r i) = Some a"

fun heap_tree :: "HuffmanNode list \<Rightarrow> tree \<Rightarrow> bool" where
  "heap_tree h Null = True"
| "heap_tree h (Node a c f l r i) =
     (a < length h \<and>
      h ! a = \<lparr>char = c, freq = f, left = ref l, right = ref r, id' = i\<rparr> \<and>
      heap_tree h l \<and> heap_tree h r)"

fun addrs :: "tree \<Rightarrow> addr set" where
  "addrs Null = {}"
| "addrs (Node a c f l r i) = insert a (addrs l \<union> addrs r)"

fun same_content :: "tree \<Rightarrow> tree \<Rightarrow> bool" where
  "same_content Null Null = True"
| "same_content (Node a c f l r i) (Node a' c' f' l' r' i') =
     (c = c' \<and> f = f' \<and> i = i' \<and> same_content l l' \<and> same_content r r')"
| "same_content _ _ = False"

fun count_nodes :: "tree \<Rightarrow> nat" where
  "count_nodes Null = 0"
| "count_nodes (Node a c f l r i) = Suc (count_nodes l + count_nodes r)"

text \<open>
  \<open>kept h h'\<close>: the store \<open>h'\<close> extends \<open>h\<close> and no cell of \<open>h\<close> has been written.
\<close>

definition kept :: "HuffmanNode list \<Rightarrow> HuffmanNode list \<Rightarrow> bool" where
  "kept h h' = (length h \<le> length h' \<and> take (length h) h' = h)"

lemma kept_nth: "kept h h' \<Longrightarrow> a < length h \<Longrightarrow> h' ! a = h ! a"
proof -
  assume k: "kept h h'" and a: "a < length h"
  have "take (length h) h' ! a = h' ! a" using a by simp
  then show ?thesis using k by (simp add: kept_def)
qed

lemma kept_refl: "kept h h"
  by (simp add: kept_def)

lemma kept_trans: "kept h h' \<Longrightarrow> kept h' h'' \<Longrightarrow> kept h h''"
proof -
  assume a: "kept h h'" and b: "kept h' h''"
  have "take (length h) h'' = take (length h) (take (length h') h'')"
    using a by (simp add: kept_def min_def)
  also have "\<dots> = h" using a b by (simp add: kept_def)
  finally show ?thesis using a b by (simp add: kept_def)
qed

lemma kept_append: "kept h (h @ xs)"
  by (simp add: kept_def)

lemma kept_update: "kept h h' \<Longrightarrow> length h \<le> a \<Longrightarrow> kept h (h'[a := x])"
  by (simp add: kept_def)

lemma heap_tree_addrs: "heap_tree h t \<Longrightarrow> a \<in> addrs t \<Longrightarrow> a < length h"
  by (induction t) auto

lemma heap_tree_frame:
  "heap_tree h t \<Longrightarrow> (\<And>a. a \<in> addrs t \<Longrightarrow> a < length h' \<and> h' ! a = h ! a) \<Longrightarrow> heap_tree h' t"
  by (induction t) auto

lemma heap_tree_kept: "heap_tree h t \<Longrightarrow> kept h h' \<Longrightarrow> heap_tree h' t"
proof (rule heap_tree_frame)
  fix a assume "heap_tree h t" "kept h h'" "a \<in> addrs t"
  then have "a < length h" by (simp add: heap_tree_addrs)
  then show "a < length h' \<and> h' ! a = h ! a"
    using \<open>kept h h'\<close> by (auto simp: kept_nth) (simp add: kept_def)
qed

lemma heap_new [simp]:
  "heap (snd (new_HuffmanNode rnd c f l r s)) =
     heap s @ [\<lparr>char = c, freq = f, left = l, right = r, id' = rnd (draws s)\<rparr>]"
  "fst (new_HuffmanNode rnd c f l r s) = length (heap s)"
  "draws (snd (new_HuffmanNode rnd c f l r s)) = Suc (draws s)"
  by (simp_all add: new_HuffmanNode_def)

text \<open>\<open>same_engine s s'\<close>: only the store and the number of draws may differ.\<close>

definition same_engine :: "state \<Rightarrow> state \<Rightarrow> bool" where
  "same_engine s s' =
     (codes s' = codes s \<and> steps s' = steps s \<and> currentStep s' = currentStep s \<and>
      animationSpeed s' = animationSpeed s \<and> isPlaying s' = isPlaying s \<and>
      animationTimeout s' = animationTimeout s)"

lemma same_engine_refl: "same_engine s s"
  by (simp add: same_engine_def)

lemma same_engine_trans: "same_engine s s' \<Longrightarrow> same_engine s' s'' \<Longrightarrow> same_engine s s''"
  by (simp add: same_engine_def)

subsection \<open>Cloning\<close>

text \<open>
  On a well-formed structure \<open>cloneNode\<close> returns, and the clone is a structure with the
  same content in cells that did not exist before; the old cells are kept.
\<close>

lemma cloneNode_tree:
  "heap_tree (heap s) t \<Longrightarrow>
   \<exists>t' s'. cloneNode rnd (ref t) s = Some (ref t', s') \<and> heap_tree (heap s') t' \<and>
     same_content t t' \<and> addrs t' \<subseteq> {length (heap s) ..< length (heap s')} \<and>
     length (heap s') = length (heap s) + count_nodes t \<and> kept (heap s) (heap s') \<and>
     draws s' = draws s + count_nodes t \<and> same_engine s s'"
proof (induction t arbitrary: s)
  case Null
  show ?case
    by (rule exI [of _ Null], rule exI [of _ s])
       (simp add: cloneNode.simps kept_refl same_engine_refl)
next
  case (Node a c f l r i)
  let ?n = "length (heap s)"
  from Node.prems have a: "a < ?n"
    and cell: "heap s ! a = \<lparr>char = c, freq = f, left = ref l, right = ref r, id' = i\<rparr>"
    and hl: "heap_tree (heap s) l" and hr: "heap_tree (heap s) r"
    by simp_all
  define s1 where "s1 = snd (new_HuffmanNode rnd c f None None s)"
  define s2 where "s2 = set_id ?n i s1"
  have new: "new_HuffmanNode rnd c f None None s = (?n, s1)"
    by (simp add: s1_def new_HuffmanNode_def)
  have h1: "heap s1 = heap s @ [\<lparr>char = c, freq = f, left = None, right = None, id' = rnd (draws s)\<rparr>]"
    by (simp add: s1_def)
  have h2: "heap s2 = heap s @ [\<lparr>char = c, freq = f, left = None, right = None, id' = i\<rparr>]"
    by (simp add: s2_def set_id_def h1)
  have k2: "kept (heap s) (heap s2)" by (simp add: h2 kept_append)
  have d2: "draws s2 = Suc (draws s)" by (simp add: s2_def set_id_def s1_def)
  have e2: "same_engine s s2"
    by (simp add: same_engine_def s2_def set_id_def s1_def new_HuffmanNode_def)
  have a1: "heap s1 ! a = heap s ! a" using a by (simp add: h1 nth_append)
  have a2: "heap s2 ! a = heap s ! a" using a by (simp add: h2 nth_append)
  from Node.IH(1) [OF heap_tree_kept [OF hl k2]]
  obtain tl s3 where
    cl: "cloneNode rnd (ref l) s2 = Some (ref tl, s3)" and tl: "heap_tree (heap s3) tl"
    and scl: "same_content l tl" and al: "addrs tl \<subseteq> {length (heap s2) ..< length (heap s3)}"
    and len3: "length (heap s3) = length (heap s2) + count_nodes l"
    and k3: "kept (heap s2) (heap s3)" and d3: "draws s3 = draws s2 + count_nodes l"
    and e3: "same_engine s2 s3"
    by blast
  define s4 where "s4 = set_left ?n (ref tl) s3"
  have n3: "?n < length (heap s3)" using len3 by (simp add: h2)
  have c3: "heap s3 ! ?n = \<lparr>char = c, freq = f, left = None, right = None, id' = i\<rparr>"
    using kept_nth [OF k3, of ?n] by (simp add: h2)
  have h4: "heap s4 = (heap s3)[?n := \<lparr>char = c, freq = f, left = ref tl, right = None, id' = i\<rparr>]"
    by (simp add: s4_def set_left_def c3)
  have k4: "kept (heap s) (heap s4)"
    unfolding h4 by (rule kept_update [OF kept_trans [OF k2 k3]]) simp
  have a4: "heap s4 ! a = heap s ! a" using kept_nth [OF k4 a] .
  have e4: "same_engine s3 s4" by (simp add: same_engine_def s4_def set_left_def)
  have d4: "draws s4 = draws s3" by (simp add: s4_def set_left_def)
  from Node.IH(2) [OF heap_tree_kept [OF hr k4]]
  obtain tr s5 where
    cr: "cloneNode rnd (ref r) s4 = Some (ref tr, s5)" and tr: "heap_tree (heap s5) tr"
    and scr: "same_content r tr" and ar: "addrs tr \<subseteq> {length (heap s4) ..< length (heap s5)}"
    and len5: "length (heap s5) = length (heap s4) + count_nodes r"
    and k5: "kept (heap s4) (heap s5)" and d5: "draws s5 = draws s4 + count_nodes r"
    and e5: "same_engine s4 s5"
    by blast
  define s6 where "s6 = set_right ?n (ref tr) s5"
  have len4: "length (heap s4) = length (heap s3)" by (simp add: h4)
  have c5: "heap s5 ! ?n = \<lparr>char = c, freq = f, left = ref tl, right = None, id' = i\<rparr>"
    using kept_nth [OF k5, of ?n] n3 by (simp add: h4)
  have h6: "heap s6 = (heap s5)[?n := \<lparr>char = c, freq = f, left = ref tl, right = ref tr, id' = i\<rparr>]"
    by (simp add: s6_def set_right_def c5)
  have n5: "?n < length (heap s5)" using n3 len4 len5 by simp
  have k6: "kept (heap s) (heap s6)"
    unfolding h6 by (rule kept_update [OF kept_trans [OF k4 k5]]) simp
  have e6: "same_engine s5 s6" by (simp add: same_engine_def s6_def set_right_def)
  have d6: "draws s6 = draws s5" by (simp add: s6_def set_right_def)
  have run: "cloneNode rnd (Some a) s = Some (Some ?n, s6)"
    by (subst cloneNode.simps)
       (simp add: new cell a1 a2 a4 s2_def [symmetric] cl s4_def [symmetric] cr s6_def [symmetric])
  have tl6: "heap_tree (heap s6) tl"
  proof (rule heap_tree_frame [OF tl])
    fix b assume b: "b \<in> addrs tl"
    with al have b1: "length (heap s2) \<le> b" and b3: "b < length (heap s3)" by auto
    have bn: "b \<noteq> ?n" using b1 by (simp add: h2)
    have "heap s6 ! b = heap s5 ! b" using bn by (simp add: h6)
    also have "\<dots> = heap s4 ! b" using kept_nth [OF k5, of b] b3 len4 by simp
    also have "\<dots> = heap s3 ! b" using bn by (simp add: h4)
    finally show "b < length (heap s6) \<and> heap s6 ! b = heap s3 ! b"
      using b3 len4 len5 by (simp add: h6)
  qed
  have tr6: "heap_tree (heap s6) tr"
  proof (rule heap_tree_frame [OF tr])
    fix b assume b: "b \<in> addrs tr"
    with ar have b1: "length (heap s4) \<le> b" and b5: "b < length (heap s5)" by auto
    have bn: "b \<noteq> ?n" using b1 n3 len4 by simp
    show "b < length (heap s6) \<and> heap s6 ! b = heap s5 ! b"
      using bn b5 by (simp add: h6)
  qed
  let ?t = "Node ?n c f tl tr i"
  have sub: "addrs ?t \<subseteq> {?n ..< length (heap s6)}"
  proof
    fix b assume "b \<in> addrs ?t"
    then consider "b = ?n" | "b \<in> addrs tl" | "b \<in> addrs tr" by auto
    then show "b \<in> {?n ..< length (heap s6)}"
    proof cases
      case 1
      then show ?thesis using n5 by (simp add: h6)
    next
      case 2
      with al have "length (heap s2) \<le> b" "b < length (heap s3)" by auto
      then show ?thesis using len4 len5 by (simp add: h6 h2)
    next
      case 3
      with ar have "length (heap s4) \<le> b" "b < length (heap s5)" by auto
      then show ?thesis using len4 n3 by (simp add: h6)
    qed
  qed
  show ?case
  proof (intro exI conjI)
    show "cloneNode rnd (ref (Node a c f l r i)) s = Some (ref ?t, s6)"
      using run by simp
    show "heap_tree (heap s6) ?t"
      using n5 tl6 tr6 by (simp add: h6)
    show "same_content (Node a c f l r i) ?t"
      using scl scr by simp
    show "addrs ?t \<subseteq> {?n ..< length (heap s6)}"
      by (rule sub)
    show "length (heap s6) = ?n + count_nodes (Node a c f l r i)"
      using len5 len4 len3 by (simp add: h6 h2)
    show "kept (heap s) (heap s6)"
      by (rule k6)
    show "draws s6 = draws s + count_nodes (Node a c f l r i)"
      using d6 d5 d4 d3 d2 by simp
    show "same_engine s s6"
      by (rule same_engine_trans [OF e2 same_engine_trans [OF e3
            same_engine_trans [OF e4 same_engine_trans [OF e5 e6]]]])
  qed
qed


text \<open>Whenever \<open>cloneNode\<close> returns, on any references at all, the old cells are kept.\<close>

lemma cloneNode_frame:
  assumes "cloneNode rnd p s = Some y"
  shows "kept (heap s) (heap (snd y)) \<and> same_engine s (snd y)"
proof (rule cloneNode.raw_induct
    [where P = "\<lambda>rnd p s y. kept (heap s) (heap (snd y)) \<and> same_engine s (snd y)", OF _ assms],
    goal_cases)
  case (1 f rnd p s y)
  show ?case
  proof (cases p)
    case None
    with 1(2) have "y = (None, s)" by simp
    then show ?thesis using kept_refl [of "heap s"] same_engine_refl [of s] by simp
  next
    case (Some a)
    let ?n = "length (heap s)"
    define s1 where "s1 = snd (new_HuffmanNode rnd (char (heap s ! a)) (freq (heap s ! a)) None None s)"
    define s2 where "s2 = set_id ?n (id' (heap s1 ! a)) s1"
    have new: "new_HuffmanNode rnd (char (heap s ! a)) (freq (heap s ! a)) None None s = (?n, s1)"
      by (simp add: s1_def new_HuffmanNode_def)
    from 1(2) Some new obtain l s3 r s5 where
      cl: "f rnd (left (heap s2 ! a)) s2 = Some (l, s3)"
      and cr: "f rnd (right (heap (set_left ?n l s3) ! a)) (set_left ?n l s3) = Some (r, s5)"
      and y: "y = (Some ?n, set_right ?n r s5)"
      by (auto simp: s2_def Let_def split: bind_splits)
    have k2: "kept (heap s) (heap s2)"
      by (simp add: s2_def set_id_def s1_def kept_update kept_append)
    have e2: "same_engine s s2"
      by (simp add: same_engine_def s2_def set_id_def s1_def new_HuffmanNode_def)
    from 1(1) [OF cl] have k3: "kept (heap s2) (heap s3)" and e3: "same_engine s2 s3" by simp_all
    have k4: "kept (heap s) (heap (set_left ?n l s3))"
      by (simp add: set_left_def kept_update [OF kept_trans [OF k2 k3]])
    have e4: "same_engine s3 (set_left ?n l s3)" by (simp add: same_engine_def set_left_def)
    from 1(1) [OF cr] have k5: "kept (heap (set_left ?n l s3)) (heap s5)"
      and e5: "same_engine (set_left ?n l s3) s5" by simp_all
    have k6: "kept (heap s) (heap (set_right ?n r s5))"
      by (simp add: set_right_def kept_update [OF kept_trans [OF k4 k5]])
    have e6: "same_engine s5 (set_right ?n r s5)" by (simp add: same_engine_def set_right_def)
    show ?thesis
      using k6 same_engine_trans [OF e2 same_engine_trans [OF e3
            same_engine_trans [OF e4 same_engine_trans [OF e5 e6]]]]
      by (simp add: y)
  qed
qed

lemma map_cloneNode_frame:
  "map_cloneNode rnd ns s = Some (cs, s') \<Longrightarrow> kept (heap s) (heap s') \<and> same_engine s s'"
proof (induction ns arbitrary: s cs)
  case Nil
  then show ?case by (simp add: kept_refl same_engine_refl)
next
  case (Cons n ns)
  from Cons.prems obtain c s1 cs1 where
    a: "cloneNode rnd (Some n) s = Some (c, s1)" and b: "map_cloneNode rnd ns s1 = Some (cs1, s')"
    by (auto split: bind_splits)
  from cloneNode_frame [OF a] Cons.IH [OF b] show ?case
    by (auto intro: kept_trans same_engine_trans)
qed

definition repr :: "HuffmanNode list \<Rightarrow> addr option \<Rightarrow> tree \<Rightarrow> bool" where
  "repr h p t = (ref t = p \<and> heap_tree h t)"

lemma repr_kept: "repr h p t \<Longrightarrow> kept h h' \<Longrightarrow> repr h' p t"
  by (auto simp: repr_def intro: heap_tree_kept)

lemma list_repr_kept: "list_all2 (repr h) ps ts \<Longrightarrow> kept h h' \<Longrightarrow> list_all2 (repr h') ps ts"
  by (erule list_all2_mono) (rule repr_kept)

lemma map_cloneNode_forest:
  "list_all2 (repr (heap s)) (map Some ns) ts \<Longrightarrow>
   \<exists>cs ts' s'. map_cloneNode rnd ns s = Some (cs, s') \<and> list_all2 (repr (heap s')) cs ts' \<and>
     list_all2 same_content ts ts' \<and>
     (\<forall>t' \<in> set ts'. addrs t' \<subseteq> {length (heap s) ..< length (heap s')}) \<and>
     length (heap s') = length (heap s) + sum_list (map count_nodes ts) \<and>
     draws s' = draws s + sum_list (map count_nodes ts)"
proof (induction ns arbitrary: s ts)
  case Nil
  then show ?case by simp
next
  case (Cons n ns)
  from Cons.prems obtain t ts0 where ts: "ts = t # ts0" and t: "repr (heap s) (Some n) t"
    and ts0: "list_all2 (repr (heap s)) (map Some ns) ts0"
    by (auto simp: list_all2_Cons1)
  from t have rt: "ref t = Some n" and ht: "heap_tree (heap s) t" by (simp_all add: repr_def)
  from cloneNode_tree [OF ht, of rnd] rt obtain t' s1 where
    c: "cloneNode rnd (Some n) s = Some (ref t', s1)" and ht': "heap_tree (heap s1) t'"
    and sc: "same_content t t'" and ad: "addrs t' \<subseteq> {length (heap s) ..< length (heap s1)}"
    and len1: "length (heap s1) = length (heap s) + count_nodes t"
    and k1: "kept (heap s) (heap s1)" and d1: "draws s1 = draws s + count_nodes t"
    by auto
  from Cons.IH [OF list_repr_kept [OF ts0 k1]] obtain cs ts' s' where
    m: "map_cloneNode rnd ns s1 = Some (cs, s')" and r': "list_all2 (repr (heap s')) cs ts'"
    and scs: "list_all2 same_content ts0 ts'"
    and ads: "\<forall>t' \<in> set ts'. addrs t' \<subseteq> {length (heap s1) ..< length (heap s')}"
    and len': "length (heap s') = length (heap s1) + sum_list (map count_nodes ts0)"
    and d': "draws s' = draws s1 + sum_list (map count_nodes ts0)"
    by blast
  from map_cloneNode_frame [OF m] have k': "kept (heap s1) (heap s')" by simp
  show ?case
  proof (intro exI conjI)
    show "map_cloneNode rnd (n # ns) s = Some (ref t' # cs, s')"
      by (simp add: c m)
    show "list_all2 (repr (heap s')) (ref t' # cs) (t' # ts')"
      using r' heap_tree_kept [OF ht' k'] by (simp add: repr_def)
    show "list_all2 same_content ts (t' # ts')"
      using sc scs by (simp add: ts)
    show "\<forall>u \<in> set (t' # ts'). addrs u \<subseteq> {length (heap s) ..< length (heap s')}"
    proof
      fix u assume "u \<in> set (t' # ts')"
      then consider "u = t'" | "u \<in> set ts'" by auto
      then show "addrs u \<subseteq> {length (heap s) ..< length (heap s')}"
      proof cases
        case 1
        then show ?thesis using ad len' by auto
      next
        case 2
        then show ?thesis using ads len1 by fastforce
      qed
    qed
    show "length (heap s') = length (heap s) + sum_list (map count_nodes ts)"
      using len' len1 by (simp add: ts)
    show "draws s' = draws s + sum_list (map count_nodes ts)"
      using d' d1 by (simp add: ts)
  qed
qed


text \<open>\<open>same_but_log s s'\<close>: the engine's fields other than the log are the same.\<close>

definition same_but_log :: "state \<Rightarrow> state \<Rightarrow> bool" where
  "same_but_log s s' =
     (codes s' = codes s \<and> currentStep s' = currentStep s \<and>
      animationSpeed s' = animationSpeed s \<and> isPlaying s' = isPlaying s \<and>
      animationTimeout s' = animationTimeout s)"

lemma same_but_log_refl: "same_but_log s s"
  by (simp add: same_but_log_def)

lemma same_but_log_trans: "same_but_log s s' \<Longrightarrow> same_but_log s' s'' \<Longrightarrow> same_but_log s s''"
  by (simp add: same_but_log_def)

lemma same_engine_but_log: "same_engine s s' \<Longrightarrow> same_but_log s s'"
  by (simp add: same_engine_def same_but_log_def)

lemma addStep_frame:
  assumes "addStep rnd d ns hl s = Some s'"
  shows "kept (heap s) (heap s')" and "same_but_log s s'"
    and "\<exists>cs. steps s' = steps s @ [\<lparr>description = d, nodes = cs, highlightNodes = hl\<rparr>]"
proof -
  show "kept (heap s) (heap s')"
  proof (cases ns)
    case None
    with assms show ?thesis by (auto simp: addStep_def kept_refl)
  next
    case (Some xs)
    with assms obtain cs s1 where m: "map_cloneNode rnd xs s = Some (cs, s1)"
      and s': "s' = s1\<lparr>steps := steps s1 @ [\<lparr>description = d, nodes = Some cs, highlightNodes = hl\<rparr>]\<rparr>"
      by (auto simp: addStep_def split: bind_splits)
    from map_cloneNode_frame [OF m] show ?thesis by (simp add: s')
  qed
  show "same_but_log s s'"
  proof (cases ns)
    case None
    with assms show ?thesis by (auto simp: addStep_def same_but_log_def)
  next
    case (Some xs)
    with assms obtain cs s1 where m: "map_cloneNode rnd xs s = Some (cs, s1)"
      and s': "s' = s1\<lparr>steps := steps s1 @ [\<lparr>description = d, nodes = Some cs, highlightNodes = hl\<rparr>]\<rparr>"
      by (auto simp: addStep_def split: bind_splits)
    from map_cloneNode_frame [OF m] show ?thesis
      by (simp add: s' same_engine_def same_but_log_def)
  qed
  show "\<exists>cs. steps s' = steps s @ [\<lparr>description = d, nodes = cs, highlightNodes = hl\<rparr>]"
  proof (cases ns)
    case None
    with assms show ?thesis by (auto simp: addStep_def)
  next
    case (Some xs)
    with assms obtain cs s1 where m: "map_cloneNode rnd xs s = Some (cs, s1)"
      and s': "s' = s1\<lparr>steps := steps s1 @ [\<lparr>description = d, nodes = Some cs, highlightNodes = hl\<rparr>]\<rparr>"
      by (auto simp: addStep_def split: bind_splits)
    from map_cloneNode_frame [OF m] show ?thesis
      by (simp add: s' same_engine_def)
  qed
qed

lemma addStep_forest:
  assumes "list_all2 (repr (heap s)) (map Some ns) ts"
  shows "\<exists>cs ts' s'. addStep rnd d (Some ns) hl s = Some s' \<and>
     steps s' = steps s @ [\<lparr>description = d, nodes = Some cs, highlightNodes = hl\<rparr>] \<and>
     list_all2 (repr (heap s')) cs ts' \<and> list_all2 same_content ts ts' \<and>
     (\<forall>t' \<in> set ts'. addrs t' \<subseteq> {length (heap s) ..< length (heap s')}) \<and>
     length (heap s') = length (heap s) + sum_list (map count_nodes ts) \<and>
     draws s' = draws s + sum_list (map count_nodes ts)"
proof -
  from map_cloneNode_forest [OF assms, of rnd] obtain cs ts' s1 where
    m: "map_cloneNode rnd ns s = Some (cs, s1)" and r: "list_all2 (repr (heap s1)) cs ts'"
    and sc: "list_all2 same_content ts ts'"
    and ad: "\<forall>t' \<in> set ts'. addrs t' \<subseteq> {length (heap s) ..< length (heap s1)}"
    and len: "length (heap s1) = length (heap s) + sum_list (map count_nodes ts)"
    and d: "draws s1 = draws s + sum_list (map count_nodes ts)"
    by blast
  let ?s' = "s1\<lparr>steps := steps s1 @ [\<lparr>description = d, nodes = Some cs, highlightNodes = hl\<rparr>]\<rparr>"
  from map_cloneNode_frame [OF m] have st: "steps s1 = steps s" by (simp add: same_engine_def)
  show ?thesis
  proof (intro exI conjI)
    show "addStep rnd d (Some ns) hl s = Some ?s'" by (simp add: addStep_def m)
    show "steps ?s' = steps s @ [\<lparr>description = d, nodes = Some cs, highlightNodes = hl\<rparr>]"
      by (simp add: st)
    show "list_all2 (repr (heap ?s')) cs ts'" using r by simp
    show "list_all2 same_content ts ts'" by (rule sc)
    show "\<forall>t' \<in> set ts'. addrs t' \<subseteq> {length (heap s) ..< length (heap ?s')}" using ad by simp
    show "length (heap ?s') = length (heap s) + sum_list (map count_nodes ts)" using len by simp
    show "draws ?s' = draws s + sum_list (map count_nodes ts)" using d by simp
  qed
qed

subsection \<open>Sorting\<close>

lemma sort_by_freq_mset [simp]: "mset (sort_by_freq s ns) = mset ns"
  by (simp add: sort_by_freq_def)

lemma sort_by_freq_length [simp]: "length (sort_by_freq s ns) = length ns"
  by (simp add: sort_by_freq_def)

lemma sort_by_freq_sorted: "sorted (map (\<lambda>a. freq (heap s ! a)) (sort_by_freq s ns))"
  by (simp add: sort_by_freq_def)

lemma list_all2_permuted:
  "list_all2 R xs ys \<Longrightarrow> mset xs' = mset xs \<Longrightarrow> \<exists>ys'. list_all2 R xs' ys' \<and> mset ys' = mset ys"
proof (induction xs' arbitrary: xs ys)
  case Nil
  then show ?case by simp
next
  case (Cons x xs')
  from Cons.prems(2) have "x \<in> set xs" by (metis list.set_intros(1) set_mset_mset)
  then obtain as bs where xs: "xs = as @ x # bs" by (auto simp: in_set_conv_decomp)
  with Cons.prems(1) obtain cs y ds where ys: "ys = cs @ y # ds" and "list_all2 R as cs"
    and xy: "R x y" and "list_all2 R bs ds"
    by (auto simp: list_all2_append1 list_all2_Cons1)
  then have a: "list_all2 R (as @ bs) (cs @ ds)" by (simp add: list_all2_appendI)
  from Cons.prems(2) have b: "mset xs' = mset (as @ bs)" by (simp add: xs)
  from Cons.IH [OF a b] obtain ys' where "list_all2 R xs' ys'" and "mset ys' = mset (cs @ ds)"
    by blast
  then have "list_all2 R (x # xs') (y # ys') \<and> mset (y # ys') = mset ys"
    using xy by (simp add: ys)
  then show ?case by blast
qed


subsection \<open>The body of the loop\<close>

fun root_freq :: "tree \<Rightarrow> int" where
  "root_freq Null = 0"
| "root_freq (Node a c f l r i) = f"

fun root_id :: "tree \<Rightarrow> string" where
  "root_id Null = []"
| "root_id (Node a c f l r i) = i"

lemma repr_Some:
  assumes "repr h (Some a) t"
  obtains c f l r i where "t = Node a c f l r i" and "a < length h"
    and "h ! a = \<lparr>char = c, freq = f, left = ref l, right = ref r, id' = i\<rparr>"
    and "heap_tree h l" and "heap_tree h r"
  using assms by (cases t) (auto simp: repr_def)

lemma repr_root:
  assumes "repr h (Some a) t"
  shows "freq (h ! a) = root_freq t" and "id' (h ! a) = root_id t" and "t \<noteq> Null"
    and "a < length h"
  using assms by (auto elim!: repr_Some)

lemma loop_body_forest:
  assumes f: "list_all2 (repr (heap s)) (map Some ns) ts" and len: "2 \<le> length ns"
  obtains l r rest tl tr trest cs ts' s' i where
    "sort_by_freq s ns = l # r # rest"
    and "list_all2 (repr (heap s)) (map Some (l # r # rest)) (tl # tr # trest)"
    and "mset (tl # tr # trest) = mset ts"
    and "loop_body rnd ns s = Some (i # rest, s')"
    and "list_all2 (repr (heap s')) (map Some (i # rest))
           (Node i None (root_freq tl + root_freq tr) tl tr (rnd (draws s' - 1)) # trest)"
    and "steps s' = steps s @
           [\<lparr>description = combining_description (heap s ! l) (heap s ! r), nodes = Some cs,
             highlightNodes = [id' (heap s ! l), id' (heap s ! r)]\<rparr>]"
    and "list_all2 (repr (heap s')) cs ts'"
    and "list_all2 same_content
           (Node (length (heap s)) None (root_freq tl + root_freq tr) tl tr (rnd (draws s)) # trest) ts'"
    and "kept (heap s) (heap s')" and "same_but_log s s'" and "draws s < draws s' - 1"
    and "i = length (heap s') - 1" and "length (heap s) < i"
proof -
  have "mset (map Some (sort_by_freq s ns)) = mset (map Some ns)" by simp
  from list_all2_permuted [OF f this] obtain ts1 where
    f1: "list_all2 (repr (heap s)) (map Some (sort_by_freq s ns)) ts1" and m1: "mset ts1 = mset ts"
    by blast
  from len obtain l r rest where srt: "sort_by_freq s ns = l # r # rest"
    by (metis sort_by_freq_length Suc_le_length_iff numeral_2_eq_2)
  with f1 obtain tl tr trest where ts1: "ts1 = tl # tr # trest"
    and rl: "repr (heap s) (Some l) tl" and rr: "repr (heap s) (Some r) tr"
    and rrest: "list_all2 (repr (heap s)) (map Some rest) trest"
    by (auto simp: list_all2_Cons1)
  let ?n = "length (heap s)"
  let ?f = "root_freq tl + root_freq tr"
  define s1 where "s1 = snd (new_HuffmanNode rnd None ?f (Some l) (Some r) s)"
  have new1: "new_HuffmanNode rnd None (freq (heap s ! l) + freq (heap s ! r)) (Some l) (Some r) s
                = (?n, s1)"
    using repr_root(1) [OF rl] repr_root(1) [OF rr] by (simp add: s1_def new_HuffmanNode_def)
  have h1: "heap s1 = heap s @ [\<lparr>char = None, freq = ?f, left = Some l, right = Some r,
                                  id' = rnd (draws s)\<rparr>]"
    by (simp add: s1_def)
  have k1: "kept (heap s) (heap s1)" by (simp add: h1 kept_append)
  have e1: "same_engine s s1" by (simp add: same_engine_def s1_def new_HuffmanNode_def)
  have d1: "draws s1 = Suc (draws s)" by (simp add: s1_def)
  let ?T = "Node ?n None ?f tl tr (rnd (draws s))"
  have rT: "repr (heap s1) (Some ?n) ?T"
    using repr_kept [OF rl k1] repr_kept [OF rr k1] by (simp add: repr_def h1)
  have f1': "list_all2 (repr (heap s1)) (map Some (?n # rest)) (?T # trest)"
    using rT list_repr_kept [OF rrest k1] by simp
  from addStep_forest [OF f1', of rnd "combining_description (heap s ! l) (heap s ! r)"
      "[id' (heap s ! l), id' (heap s ! r)]"]
  obtain cs ts' s2 where
    add: "addStep rnd (combining_description (heap s ! l) (heap s ! r)) (Some (?n # rest))
            [id' (heap s ! l), id' (heap s ! r)] s1 = Some s2"
    and st2: "steps s2 = steps s1 @
           [\<lparr>description = combining_description (heap s ! l) (heap s ! r), nodes = Some cs,
             highlightNodes = [id' (heap s ! l), id' (heap s ! r)]\<rparr>]"
    and rcs: "list_all2 (repr (heap s2)) cs ts'" and sc: "list_all2 same_content (?T # trest) ts'"
    and len2: "length (heap s2) = length (heap s1) + sum_list (map count_nodes (?T # trest))"
    and d2: "draws s2 = draws s1 + sum_list (map count_nodes (?T # trest))"
    by blast
  from addStep_frame [OF add] have k2: "kept (heap s1) (heap s2)" and e2: "same_but_log s1 s2"
    by blast+
  let ?i = "length (heap s2)"
  define s3 where "s3 = snd (new_HuffmanNode rnd None ?f (Some l) (Some r) s2)"
  have k02: "kept (heap s) (heap s2)" by (rule kept_trans [OF k1 k2])
  have fl2: "freq (heap s2 ! l) = root_freq tl" "freq (heap s2 ! r) = root_freq tr"
    using repr_root(1) [OF repr_kept [OF rl k02]] repr_root(1) [OF repr_kept [OF rr k02]]
    by simp_all
  have new3: "new_HuffmanNode rnd None (freq (heap s2 ! l) + freq (heap s2 ! r)) (Some l) (Some r) s2
                = (?i, s3)"
    by (simp add: fl2 s3_def new_HuffmanNode_def)
  have h3: "heap s3 = heap s2 @ [\<lparr>char = None, freq = ?f, left = Some l, right = Some r,
                                   id' = rnd (draws s2)\<rparr>]"
    by (simp add: s3_def)
  have k3: "kept (heap s2) (heap s3)" by (simp add: h3 kept_append)
  have k03: "kept (heap s) (heap s3)" by (rule kept_trans [OF k02 k3])
  have e3: "same_engine s2 s3" by (simp add: same_engine_def s3_def new_HuffmanNode_def)
  have d3: "draws s3 = Suc (draws s2)" by (simp add: s3_def)
  let ?I = "Node ?i None ?f tl tr (rnd (draws s2))"
  have rI: "repr (heap s3) (Some ?i) ?I"
    using repr_kept [OF rl k03] repr_kept [OF rr k03] by (simp add: repr_def h3)
  have run: "loop_body rnd ns s = Some (?i # rest, s3)"
    by (simp add: loop_body_def srt new1 add new3)
  show thesis
  proof (rule that [of l r rest tl tr trest ?i s3 cs ts'])
    show "sort_by_freq s ns = l # r # rest" by (rule srt)
    show "list_all2 (repr (heap s)) (map Some (l # r # rest)) (tl # tr # trest)"
      using rl rr rrest by simp
    show "mset (tl # tr # trest) = mset ts" using m1 by (simp add: ts1)
    show "loop_body rnd ns s = Some (?i # rest, s3)" by (rule run)
    show "list_all2 (repr (heap s3)) (map Some (?i # rest))
            (Node ?i None ?f tl tr (rnd (draws s3 - 1)) # trest)"
      using rI list_repr_kept [OF rrest k03] by (simp add: d3)
    show "steps s3 = steps s @
           [\<lparr>description = combining_description (heap s ! l) (heap s ! r), nodes = Some cs,
             highlightNodes = [id' (heap s ! l), id' (heap s ! r)]\<rparr>]"
      using st2 e1 e3 by (simp add: same_engine_def)
    show "list_all2 (repr (heap s3)) cs ts'" by (rule list_repr_kept [OF rcs k3])
    show "list_all2 same_content (?T # trest) ts'" by (rule sc)
    show "kept (heap s) (heap s3)" by (rule k03)
    show "same_but_log s s3"
      by (rule same_but_log_trans [OF same_engine_but_log [OF e1]
            same_but_log_trans [OF e2 same_engine_but_log [OF e3]]])
    show "draws s < draws s3 - 1" using d1 d2 d3 by simp
    show "?i = length (heap s3) - 1" by (simp add: h3)
    show "?n < ?i" using len2 by (simp add: h1)
  qed
qed


lemma loop_body_frame:
  assumes "loop_body rnd ns s = Some (ns', s')"
  shows "kept (heap s) (heap s')" and "same_but_log s s'"
    and "\<exists>st. steps s' = steps s @ [st]"
proof -
  from assms obtain l r rest where srt: "sort_by_freq s ns = l # r # rest"
    by (auto simp: loop_body_def split: list.splits)
  define s1 where
    "s1 = snd (new_HuffmanNode rnd None (freq (heap s ! l) + freq (heap s ! r)) (Some l) (Some r) s)"
  have new1: "new_HuffmanNode rnd None (freq (heap s ! l) + freq (heap s ! r)) (Some l) (Some r) s
                = (length (heap s), s1)"
    by (simp add: s1_def new_HuffmanNode_def)
  from assms srt new1 obtain s2 where
    add: "addStep rnd (combining_description (heap s ! l) (heap s ! r))
            (Some (length (heap s) # rest)) [id' (heap s ! l), id' (heap s ! r)] s1 = Some s2"
    and s': "s' = snd (new_HuffmanNode rnd None (freq (heap s2 ! l) + freq (heap s2 ! r))
                        (Some l) (Some r) s2)"
    by (auto simp: loop_body_def split: bind_splits prod.splits)
  have k1: "kept (heap s) (heap s1)" by (simp add: s1_def kept_append)
  have e1: "same_engine s s1" by (simp add: same_engine_def s1_def new_HuffmanNode_def)
  note a = addStep_frame [OF add]
  have k3: "kept (heap s2) (heap s')" by (simp add: s' kept_append)
  have e3: "same_engine s2 s'" by (simp add: same_engine_def s' new_HuffmanNode_def)
  show "kept (heap s) (heap s')"
    by (rule kept_trans [OF k1 kept_trans [OF a(1) k3]])
  show "same_but_log s s'"
    by (rule same_but_log_trans [OF same_engine_but_log [OF e1]
          same_but_log_trans [OF a(2) same_engine_but_log [OF e3]]])
  from a(3) e1 e3 show "\<exists>st. steps s' = steps s @ [st]"
    by (auto simp: same_engine_def)
qed

lemma merge_loop_frame:
  "merge_loop rnd ns s = Some (ns', s') \<Longrightarrow>
   kept (heap s) (heap s') \<and> same_but_log s s' \<and> take (length (steps s)) (steps s') = steps s"
proof (induction rnd ns s rule: merge_loop.induct)
  case (1 rnd ns s)
  show ?case
  proof (cases "1 < length ns")
    case False
    with 1(2) show ?thesis
      by (simp add: merge_loop.simps kept_refl same_but_log_refl)
  next
    case True
    with 1(2) obtain ns1 s1 where b: "loop_body rnd ns s = Some (ns1, s1)"
      and m: "merge_loop rnd ns1 s1 = Some (ns', s')"
      by (subst (asm) merge_loop.simps) (auto split: option.splits)
    from 1(1) [OF True b refl m] have k: "kept (heap s1) (heap s')" and e: "same_but_log s1 s'"
      and t: "take (length (steps s1)) (steps s') = steps s1"
      by simp_all
    note f = loop_body_frame [OF b]
    from f(3) obtain st where st: "steps s1 = steps s @ [st]" by blast
    have "take (length (steps s)) (steps s') = take (length (steps s)) (take (length (steps s1)) (steps s'))"
      by (simp add: st min_def)
    also have "\<dots> = steps s" by (simp add: t) (simp add: st)
    finally show ?thesis
      using kept_trans [OF f(1) k] same_but_log_trans [OF f(2) e] by simp
  qed
qed

subsection \<open>Shape and content of the trees\<close>

fun full :: "tree \<Rightarrow> bool" where
  "full Null = False"
| "full (Node a c f l r i) = (l = Null \<and> r = Null \<or> full l \<and> full r)"

fun leaves :: "tree \<Rightarrow> string option list" where
  "leaves Null = []"
| "leaves (Node a c f l r i) = (if l = Null \<and> r = Null then [c] else leaves l @ leaves r)"

text \<open>What a merge keeps of a forest: the sum of the root frequencies and the leaves.\<close>

definition summary :: "tree list \<Rightarrow> int \<times> string option multiset" where
  "summary ts = (sum_list (map root_freq ts), mset (concat (map leaves ts)))"

lemma sum_list_mset_cong:
  fixes g :: "'a \<Rightarrow> 'b::comm_monoid_add"
  shows "mset xs = mset ys \<Longrightarrow> sum_list (map g xs) = sum_list (map g ys)"
  by (metis mset_map sum_mset_sum_list)

lemma summary_mset: "mset ts = mset ts' \<Longrightarrow> summary ts = summary ts'"
  unfolding summary_def mset_concat
  by (simp add: sum_list_mset_cong [of ts ts'] comp_def)

lemma summary_merge:
  "t1 \<noteq> Null \<Longrightarrow>
   summary (Node i c (root_freq t1 + root_freq t2) t1 t2 j # ts) = summary (t1 # t2 # ts)"
  by (simp add: summary_def)

lemma full_not_Null: "full t \<Longrightarrow> t \<noteq> Null"
  by auto


lemma same_content_root:
  "same_content t t' \<Longrightarrow> root_freq t' = root_freq t \<and> root_id t' = root_id t \<and> (t' = Null) = (t = Null)"
  by (cases t; cases t') auto

subsection \<open>The loop\<close>

text \<open>
  \<open>last_merge s f\<close>: the last step of the log records a forest of one root, of frequency
  \<open>f\<close>. \<open>loop_result\<close> collects what the loop gives from a forest \<open>ts\<close>: one tree, full, with
  the summary of \<open>ts\<close>, after one step for each merge.
\<close>

definition last_merge :: "state \<Rightarrow> int \<Rightarrow> bool" where
  "last_merge s f =
     (\<exists>d c t' hl. last (steps s) = \<lparr>description = d, nodes = Some [c], highlightNodes = hl\<rparr> \<and>
        repr (heap s) c t' \<and> root_freq t' = f \<and> t' \<noteq> Null)"

definition loop_result ::
  "(nat \<Rightarrow> string) \<Rightarrow> addr list \<Rightarrow> state \<Rightarrow> tree list \<Rightarrow> addr \<Rightarrow> tree \<Rightarrow> state \<Rightarrow> bool" where
  "loop_result rnd ns s ts a t s' =
     (merge_loop rnd ns s = Some ([a], s') \<and> repr (heap s') (Some a) t \<and> full t \<and>
      summary [t] = summary ts \<and>
      length (steps s') = length (steps s) + (length ns - 1) \<and>
      (2 \<le> length ns \<longrightarrow> last_merge s' (root_freq t)))"

lemma merge_loop_forest:
  assumes "list_all2 (repr (heap s)) (map Some ns) ts" and "\<forall>t \<in> set ts. full t" and "ns \<noteq> []"
  shows "\<exists>a t s'. loop_result rnd ns s ts a t s'"
  using assms
proof (induction "length ns" arbitrary: ns ts s rule: less_induct)
  case less
  show ?case
  proof (cases "2 \<le> length ns")
    case False
    with less.prems(3) obtain a where ns: "ns = [a]"
      by (cases ns) (auto simp: Suc_le_eq)
    with less.prems(1) obtain t where ts: "ts = [t]" and t: "repr (heap s) (Some a) t"
      by (auto simp: list_all2_Cons1)
    have "merge_loop rnd ns s = Some ([a], s)" by (simp add: merge_loop.simps ns)
    then have "loop_result rnd ns s ts a t s"
      using t less.prems(2) by (simp add: loop_result_def ts ns)
    then show ?thesis by blast
  next
    case True
    obtain l r rest t1 t2 trest cs ts' s1 i where
      srt: "sort_by_freq s ns = l # r # rest"
      and f0: "list_all2 (repr (heap s)) (map Some (l # r # rest)) (t1 # t2 # trest)"
      and m: "mset (t1 # t2 # trest) = mset ts"
      and b: "loop_body rnd ns s = Some (i # rest, s1)"
      and f1: "list_all2 (repr (heap s1)) (map Some (i # rest))
                 (Node i None (root_freq t1 + root_freq t2) t1 t2 (rnd (draws s1 - 1)) # trest)"
      and st1: "steps s1 = steps s @
           [\<lparr>description = combining_description (heap s ! l) (heap s ! r), nodes = Some cs,
             highlightNodes = [id' (heap s ! l), id' (heap s ! r)]\<rparr>]"
      and rcs: "list_all2 (repr (heap s1)) cs ts'"
      and sc: "list_all2 same_content
           (Node (length (heap s)) None (root_freq t1 + root_freq t2) t1 t2 (rnd (draws s)) # trest) ts'"
      and "kept (heap s) (heap s1)" and "same_but_log s s1" and "draws s < draws s1 - 1"
      and "i = length (heap s1) - 1" and "length (heap s) < i"
      by (rule loop_body_forest [OF less.prems(1) True, of rnd])
    let ?I = "Node i None (root_freq t1 + root_freq t2) t1 t2 (rnd (draws s1 - 1))"
    have lenr: "Suc (Suc (length rest)) = length ns"
      using arg_cong [OF srt, of length] by simp
    have "set_mset (mset ts) = set_mset (mset (t1 # t2 # trest))" by (simp only: m)
    then have sets: "set ts = insert t1 (insert t2 (set trest))" by simp
    have fl: "full t1" "full t2" "\<forall>t \<in> set trest. full t"
      using less.prems(2) by (simp_all add: sets)
    have fI: "\<forall>t \<in> set (?I # trest). full t" using fl by simp
    have "t1 \<noteq> Null" using fl(1) by auto
    then have "summary (?I # trest) = summary (t1 # t2 # trest)" by (rule summary_merge)
    also have "\<dots> = summary ts" by (rule summary_mset [OF m])
    finally have sI: "summary (?I # trest) = summary ts" .
    have lt: "length (i # rest) < length ns" using lenr by simp
    have unfold: "merge_loop rnd ns s = merge_loop rnd (i # rest) s1"
      using True by (subst merge_loop.simps) (simp add: b)
    show ?thesis
    proof (cases "rest = []")
      case True
      have r1: "merge_loop rnd ns s = Some ([i], s1)"
        by (subst unfold) (simp add: True merge_loop.simps)
      from f1 True have rI: "repr (heap s1) (Some i) ?I" by simp
      from f0 True have tr: "trest = []" by simp
      from sc tr obtain c' where ts': "ts' = [c']"
        and scc: "same_content (Node (length (heap s)) None (root_freq t1 + root_freq t2) t1 t2
                     (rnd (draws s))) c'"
        by (auto simp: list_all2_Cons1)
      with rcs obtain c where cs: "cs = [c]" and rc: "repr (heap s1) c c'"
        by (auto simp: list_all2_Cons2)
      from same_content_root [OF scc] have rf: "root_freq c' = root_freq ?I" and nn: "c' \<noteq> Null"
        by simp_all
      have "last (steps s1) = \<lparr>description = combining_description (heap s ! l) (heap s ! r),
               nodes = Some [c], highlightNodes = [id' (heap s ! l), id' (heap s ! r)]\<rparr>"
        by (simp add: st1 cs)
      then have lastp: "last_merge s1 (root_freq ?I)"
        unfolding last_merge_def using rc rf nn by blast
      have lens: "length (steps s1) = length (steps s) + (length ns - 1)"
        using lenr True by (simp add: st1)
      have "full ?I" using fl by simp
      moreover have "summary [?I] = summary ts" using sI tr by simp
      ultimately have "loop_result rnd ns s ts i ?I s1"
        using r1 rI lens lastp by (simp add: loop_result_def)
      then show ?thesis by blast
    next
      case False
      then have two: "2 \<le> length (i # rest)" by (cases rest) auto
      have "i # rest \<noteq> []" by simp
      from less.hyps [OF lt f1 fI this] obtain a t s' where
        lr: "loop_result rnd (i # rest) s1 (?I # trest) a t s'"
        by blast
      have "length (steps s') = length (steps s) + (length ns - 1)"
        using lr lenr by (simp add: loop_result_def st1)
      then have "loop_result rnd ns s ts a t s'"
        using lr two sI unfold by (simp add: loop_result_def)
      then show ?thesis by blast
    qed
  qed
qed

subsection \<open>The leaves\<close>

fun leaf_cells :: "(nat \<Rightarrow> string) \<Rightarrow> nat \<Rightarrow> (string \<times> int) list \<Rightarrow> HuffmanNode list" where
  "leaf_cells rnd d [] = []"
| "leaf_cells rnd d ((c, f) # es) =
     \<lparr>char = Some c, freq = f, left = None, right = None, id' = rnd d\<rparr> # leaf_cells rnd (Suc d) es"

fun leaf_trees :: "(nat \<Rightarrow> string) \<Rightarrow> addr \<Rightarrow> nat \<Rightarrow> (string \<times> int) list \<Rightarrow> tree list" where
  "leaf_trees rnd n d [] = []"
| "leaf_trees rnd n d ((c, f) # es) =
     Node n (Some c) f Null Null (rnd d) # leaf_trees rnd (Suc n) (Suc d) es"

lemma leaf_cells_length [simp]: "length (leaf_cells rnd d es) = length es"
  by (induction rnd d es rule: leaf_cells.induct) simp_all

lemma create_leaves_eq:
  "create_leaves rnd es ns s =
     (ns @ [length (heap s) ..< length (heap s) + length es],
      s\<lparr>heap := heap s @ leaf_cells rnd (draws s) es, draws := draws s + length es\<rparr>)"
proof (induction es arbitrary: ns s)
  case Nil
  then show ?case by simp
next
  case (Cons e es)
  obtain c f where e: "e = (c, f)" by (cases e)
  have "[length (heap s) ..< length (heap s) + length (e # es)]
          = length (heap s) # [Suc (length (heap s)) ..< Suc (length (heap s)) + length es]"
    by (simp add: upt_rec)
  then show ?case
    by (simp add: e new_HuffmanNode_def Cons.IH)
qed

lemma leaf_trees_repr:
  "n = length h \<Longrightarrow>
   list_all2 (repr (h @ leaf_cells rnd d es)) (map Some [n ..< n + length es]) (leaf_trees rnd n d es)"
proof (induction es arbitrary: n h d)
  case Nil
  then show ?case by simp
next
  case (Cons e es)
  obtain c f where e: "e = (c, f)" by (cases e)
  let ?cell = "\<lparr>char = Some c, freq = f, left = None, right = None, id' = rnd d\<rparr>"
  have up: "[n ..< n + length (e # es)] = n # [Suc n ..< Suc n + length es]"
    by (simp add: upt_rec)
  have "Suc n = length (h @ [?cell])" using Cons.prems by simp
  from Cons.IH [OF this, of "Suc d"]
  have "list_all2 (repr (h @ ?cell # leaf_cells rnd (Suc d) es))
          (map Some [Suc n ..< Suc n + length es]) (leaf_trees rnd (Suc n) (Suc d) es)"
    by simp
  moreover have "repr (h @ ?cell # leaf_cells rnd (Suc d) es) (Some n)
                   (Node n (Some c) f Null Null (rnd d))"
    using Cons.prems by (simp add: repr_def nth_append)
  ultimately show ?case
    unfolding up by (simp add: e)
qed

lemma leaf_trees_full: "\<forall>t \<in> set (leaf_trees rnd n d es). full t"
  by (induction rnd n d es rule: leaf_trees.induct) simp_all

lemma leaf_trees_summary:
  "summary (leaf_trees rnd n d es) = (sum_list (map snd es), mset (map (Some \<circ> fst) es))"
  by (induction rnd n d es rule: leaf_trees.induct) (simp_all add: summary_def)


subsection \<open>The whole construction\<close>

definition final_step :: step where
  "final_step =
     \<lparr>description = ''Huffman tree construction complete!'', nodes = None, highlightNodes = []\<rparr>"

lemma addStep_None:
  "addStep rnd d None hl s =
     Some (s\<lparr>steps := steps s @ [\<lparr>description = d, nodes = None, highlightNodes = hl\<rparr>]\<rparr>)"
  by (simp add: addStep_def)

lemma buildTree_run:
  assumes ne: "fm \<noteq> []"
  obtains a t s3 cs0 where
    "buildTree rnd fm s = Some (Some a, s3\<lparr>steps := steps s3 @ [final_step]\<rparr>)"
    and "repr (heap s3) (Some a) t" and "full t"
    and "summary [t] = (sum_list (map snd fm), mset (map (Some \<circ> fst) fm))"
    and "length (steps s3) = length fm"
    and "hd (steps s3) = \<lparr>description = ''Starting with the following nodes:'', nodes = Some cs0,
           highlightNodes = []\<rparr>"
    and "2 \<le> length fm \<Longrightarrow> last_merge s3 (root_freq t)"
    and "same_but_log (s\<lparr>currentStep := 0\<rparr>) s3"
    and "kept (heap s) (heap s3)"
proof -
  let ?n = "length (heap s)"
  let ?s0 = "s\<lparr>steps := [], currentStep := 0\<rparr>"
  let ?ns0 = "[?n ..< ?n + length fm]"
  define s1 where "s1 = ?s0\<lparr>heap := heap ?s0 @ leaf_cells rnd (draws ?s0) fm,
                              draws := draws ?s0 + length fm\<rparr>"
  have cl: "create_leaves rnd fm [] ?s0 = (?ns0, s1)"
    by (simp add: create_leaves_eq s1_def)
  let ?ts0 = "leaf_trees rnd ?n (draws s) fm"
  have h1: "heap s1 = heap s @ leaf_cells rnd (draws s) fm" by (simp add: s1_def)
  have k1: "kept (heap s) (heap s1)" by (simp add: h1 kept_append)
  have e1: "same_but_log (s\<lparr>currentStep := 0\<rparr>) s1" by (simp add: same_but_log_def s1_def)
  have st1: "steps s1 = []" by (simp add: s1_def)
  have f0: "list_all2 (repr (heap s1)) (map Some ?ns0) ?ts0"
    unfolding h1 by (rule leaf_trees_repr) simp
  let ?ns1 = "sort_by_freq s1 ?ns0"
  have "mset (map Some ?ns1) = mset (map Some ?ns0)" by simp
  from list_all2_permuted [OF f0 this] obtain ts1 where
    f1: "list_all2 (repr (heap s1)) (map Some ?ns1) ts1" and m1: "mset ts1 = mset ?ts0"
    by blast
  from addStep_forest [OF f1, of rnd "''Starting with the following nodes:''" "[]"]
  obtain cs0 s2 where
    add: "addStep rnd ''Starting with the following nodes:'' (Some ?ns1) [] s1 = Some s2"
    and st2: "steps s2 = steps s1 @ [\<lparr>description = ''Starting with the following nodes:'',
                nodes = Some cs0, highlightNodes = []\<rparr>]"
    by blast
  note fr2 = addStep_frame [OF add]
  have f2: "list_all2 (repr (heap s2)) (map Some ?ns1) ts1"
    by (rule list_repr_kept [OF f1 fr2(1)])
  have "set_mset (mset ts1) = set_mset (mset ?ts0)" by (simp only: m1)
  then have "set ts1 = set ?ts0" by simp
  then have full1: "\<forall>t \<in> set ts1. full t" using leaf_trees_full [of rnd ?n "draws s" fm] by simp
  have ne1: "?ns1 \<noteq> []" using ne by (metis sort_by_freq_length length_0_conv length_upt add_diff_cancel_left')
  from merge_loop_forest [OF f2 full1 ne1, of rnd] obtain a t s3 where
    lr: "loop_result rnd ?ns1 s2 ts1 a t s3"
    by blast
  then have ml: "merge_loop rnd ?ns1 s2 = Some ([a], s3)" by (simp add: loop_result_def)
  note fr3 = merge_loop_frame [OF ml]
  have len1: "length ?ns1 = length fm" by simp
  have run: "buildTree rnd fm s = Some (Some a, s3\<lparr>steps := steps s3 @ [final_step]\<rparr>)"
    by (simp add: buildTree_def cl add ml addStep_None final_step_def)
  show thesis
  proof (rule that [of a s3 t cs0])
    show "buildTree rnd fm s = Some (Some a, s3\<lparr>steps := steps s3 @ [final_step]\<rparr>)"
      by (rule run)
    show "repr (heap s3) (Some a) t" and "full t" using lr by (simp_all add: loop_result_def)
    have "summary [t] = summary ts1" using lr by (simp add: loop_result_def)
    also have "\<dots> = summary ?ts0" by (rule summary_mset [OF m1])
    finally show "summary [t] = (sum_list (map snd fm), mset (map (Some \<circ> fst) fm))"
      by (simp add: leaf_trees_summary)
    have "length (steps s3) = length (steps s2) + (length ?ns1 - 1)"
      using lr by (simp add: loop_result_def)
    then show "length (steps s3) = length fm"
      using ne by (cases fm) (simp_all add: st2 st1 len1)
    have "take (length (steps s2)) (steps s3) = steps s2" using fr3 by simp
    then have "take 1 (steps s3) = [\<lparr>description = ''Starting with the following nodes:'',
                nodes = Some cs0, highlightNodes = []\<rparr>]"
      by (simp add: st2 st1)
    then show "hd (steps s3) = \<lparr>description = ''Starting with the following nodes:'',
                nodes = Some cs0, highlightNodes = []\<rparr>"
      by (cases "steps s3") simp_all
    show "last_merge s3 (root_freq t)" if "2 \<le> length fm"
      using lr that by (simp add: loop_result_def)
    show "same_but_log (s\<lparr>currentStep := 0\<rparr>) s3"
      using fr3 by (blast intro: same_but_log_trans [OF e1 same_but_log_trans [OF fr2(2)]])
    show "kept (heap s) (heap s3)"
      using fr3 by (blast intro: kept_trans [OF k1 kept_trans [OF fr2(1)]])
  qed
qed

lemma buildTree_empty:
  "buildTree rnd [] s =
     Some (None, s\<lparr>steps := [\<lparr>description = ''Starting with the following nodes:'',
                               nodes = Some [], highlightNodes = []\<rparr>, final_step],
                    currentStep := 0\<rparr>)"
  by (simp add: buildTree_def sort_by_freq_def addStep_def merge_loop.simps final_step_def)

section \<open>Navigation over the step log\<close>

lemma nextStep_iterate:
  "0 \<le> currentStep s \<Longrightarrow> currentStep s + int k \<le> int (length (steps s)) - 1 \<Longrightarrow>
   ((\<lambda>t. snd (nextStep t)) ^^ k) s = s\<lparr>currentStep := currentStep s + int k\<rparr>"
proof (induction k)
  case 0
  then show ?case by simp
next
  case (Suc k)
  then have "((\<lambda>t. snd (nextStep t)) ^^ k) s = s\<lparr>currentStep := currentStep s + int k\<rparr>"
    by simp
  moreover have "currentStep s + int k < int (length (steps s)) - 1"
    using Suc.prems by simp
  ultimately show ?case
    by (simp add: nextStep_def add.assoc)
qed

text \<open>
  C8. With the cursor inside the log, \<open>nextStep\<close> returns true and adds one to the cursor
  exactly when the cursor is not the last index, and otherwise returns false and changes
  nothing; \<open>prevStep\<close> returns true and subtracts one exactly when the cursor is not 0, and
  otherwise returns false and changes nothing. From cursor 0, \<open>length (steps s) - 1\<close> calls
  of \<open>nextStep\<close> all return true and end on the last index, where the next call returns
  false.
\<close>

theorem navigation:
  assumes "0 \<le> currentStep s" and "currentStep s < int (length (steps s))"
  shows "nextStep s =
           (if currentStep s \<noteq> int (length (steps s)) - 1
            then (True, s\<lparr>currentStep := currentStep s + 1\<rparr>) else (False, s)) \<and>
         prevStep s =
           (if currentStep s \<noteq> 0
            then (True, s\<lparr>currentStep := currentStep s - 1\<rparr>) else (False, s)) \<and>
         (currentStep s = 0 \<longrightarrow>
           (\<forall>k < length (steps s) - 1. fst (nextStep (((\<lambda>t. snd (nextStep t)) ^^ k) s))) \<and>
           currentStep (((\<lambda>t. snd (nextStep t)) ^^ (length (steps s) - 1)) s)
             = int (length (steps s)) - 1 \<and>
           nextStep (((\<lambda>t. snd (nextStep t)) ^^ (length (steps s) - 1)) s)
             = (False, ((\<lambda>t. snd (nextStep t)) ^^ (length (steps s) - 1)) s))"
proof (intro conjI impI)
  show "nextStep s =
          (if currentStep s \<noteq> int (length (steps s)) - 1
           then (True, s\<lparr>currentStep := currentStep s + 1\<rparr>) else (False, s))"
    using assms by (auto simp: nextStep_def)
  show "prevStep s =
          (if currentStep s \<noteq> 0
           then (True, s\<lparr>currentStep := currentStep s - 1\<rparr>) else (False, s))"
    using assms by (auto simp: prevStep_def)
next
  assume z: "currentStep s = 0"
  have pos: "0 < length (steps s)" using assms by (cases "steps s") auto
  have c: "int (length (steps s) - 1) = int (length (steps s)) - 1"
    using pos by (cases "steps s") auto
  have it: "((\<lambda>t. snd (nextStep t)) ^^ k) s = s\<lparr>currentStep := int k\<rparr>"
    if "k \<le> length (steps s) - 1" for k
  proof -
    have "int k \<le> int (length (steps s)) - 1" using that pos by linarith
    then show ?thesis using nextStep_iterate [of s k] z by simp
  qed
  show "\<forall>k < length (steps s) - 1. fst (nextStep (((\<lambda>t. snd (nextStep t)) ^^ k) s))"
  proof (intro allI impI)
    fix k assume "k < length (steps s) - 1"
    then show "fst (nextStep (((\<lambda>t. snd (nextStep t)) ^^ k) s))"
      using it [of k] by (simp add: nextStep_def)
  qed
  have b: "((\<lambda>t. snd (nextStep t)) ^^ (length (steps s) - 1)) s
             = s\<lparr>currentStep := int (length (steps s) - 1)\<rparr>"
    using it [of "length (steps s) - 1"] by simp
  show "currentStep (((\<lambda>t. snd (nextStep t)) ^^ (length (steps s) - 1)) s)
          = int (length (steps s)) - 1"
    using b c by simp
  show "nextStep (((\<lambda>t. snd (nextStep t)) ^^ (length (steps s) - 1)) s)
          = (False, ((\<lambda>t. snd (nextStep t)) ^^ (length (steps s) - 1)) s)"
    using b c by (simp add: nextStep_def)
qed

definition three_steps :: state where
  "three_steps =
     new_HuffmanCoding\<lparr>steps :=
       [\<lparr>description = ''a'', nodes = None, highlightNodes = []\<rparr>,
        \<lparr>description = ''b'', nodes = None, highlightNodes = []\<rparr>,
        \<lparr>description = ''c'', nodes = None, highlightNodes = []\<rparr>]\<rparr>"

theorem navigation_witness:
  "0 \<le> currentStep three_steps \<and> currentStep three_steps < int (length (steps three_steps)) \<and>
   currentStep three_steps = 0 \<and> length (steps three_steps) - 1 = 2 \<and>
   nextStep three_steps = (True, three_steps\<lparr>currentStep := currentStep three_steps + 1\<rparr>) \<and>
   prevStep three_steps = (False, three_steps) \<and>
   fst (nextStep (((\<lambda>t. snd (nextStep t)) ^^ 0) three_steps)) \<and>
   fst (nextStep (((\<lambda>t. snd (nextStep t)) ^^ 1) three_steps)) \<and>
   currentStep (((\<lambda>t. snd (nextStep t)) ^^ 2) three_steps) = 2 \<and>
   nextStep (((\<lambda>t. snd (nextStep t)) ^^ 2) three_steps)
     = (False, ((\<lambda>t. snd (nextStep t)) ^^ 2) three_steps)"
proof -
  have h: "0 \<le> currentStep three_steps" "currentStep three_steps < int (length (steps three_steps))"
    by (simp_all add: three_steps_def new_HuffmanCoding_def)
  have z: "currentStep three_steps = 0"
    by (simp add: three_steps_def new_HuffmanCoding_def)
  have n: "length (steps three_steps) - 1 = 2" "int (length (steps three_steps)) - 1 = 2"
    by (simp_all add: three_steps_def new_HuffmanCoding_def)
  have "\<forall>k < 2. fst (nextStep (((\<lambda>t. snd (nextStep t)) ^^ k) three_steps))"
    using navigation [OF h] z n by simp
  then have "fst (nextStep (((\<lambda>t. snd (nextStep t)) ^^ 0) three_steps))"
    and "fst (nextStep (((\<lambda>t. snd (nextStep t)) ^^ 1) three_steps))"
    by (metis zero_less_numeral, metis one_less_numeral_iff semiring_norm(76))
  then show ?thesis
    using navigation [OF h] h z n by simp
qed

section \<open>The step log of a construction\<close>

definition is_merge_step :: "step \<Rightarrow> bool" where
  "is_merge_step st = (nodes st \<noteq> None \<and> length (highlightNodes st) = 2)"

lemma loop_body_step:
  assumes "loop_body rnd ns s = Some (ns', s')"
  shows "\<exists>st. steps s' = steps s @ [st] \<and> is_merge_step st"
proof -
  from assms obtain l r rest where srt: "sort_by_freq s ns = l # r # rest"
    by (auto simp: loop_body_def split: list.splits)
  define s1 where
    "s1 = snd (new_HuffmanNode rnd None (freq (heap s ! l) + freq (heap s ! r)) (Some l) (Some r) s)"
  have new1: "new_HuffmanNode rnd None (freq (heap s ! l) + freq (heap s ! r)) (Some l) (Some r) s
                = (length (heap s), s1)"
    by (simp add: s1_def new_HuffmanNode_def)
  from assms srt new1 obtain s2 where
    add: "addStep rnd (combining_description (heap s ! l) (heap s ! r))
            (Some (length (heap s) # rest)) [id' (heap s ! l), id' (heap s ! r)] s1 = Some s2"
    and s': "s' = snd (new_HuffmanNode rnd None (freq (heap s2 ! l) + freq (heap s2 ! r))
                        (Some l) (Some r) s2)"
    by (auto simp: loop_body_def split: bind_splits prod.splits)
  from add obtain cs sm where
    "s2 = sm\<lparr>steps := steps sm @ [\<lparr>description = combining_description (heap s ! l) (heap s ! r),
             nodes = Some cs, highlightNodes = [id' (heap s ! l), id' (heap s ! r)]\<rparr>]\<rparr>"
    and "map_cloneNode rnd (length (heap s) # rest) s1 = Some (cs, sm)"
    by (auto simp: addStep_def split: bind_splits)
  moreover from map_cloneNode_frame [OF this(2)] have "steps sm = steps s1"
    by (simp add: same_engine_def)
  moreover have "steps s1 = steps s" by (simp add: s1_def new_HuffmanNode_def)
  ultimately show ?thesis
    by (simp add: s' new_HuffmanNode_def is_merge_step_def)
qed

lemma merge_loop_steps:
  "merge_loop rnd ns s = Some (ns', s') \<Longrightarrow>
   \<exists>ms. steps s' = steps s @ ms \<and> list_all is_merge_step ms"
proof (induction rnd ns s rule: merge_loop.induct)
  case (1 rnd ns s)
  show ?case
  proof (cases "1 < length ns")
    case False
    with 1(2) show ?thesis by (simp add: merge_loop.simps)
  next
    case True
    with 1(2) obtain ns1 s1 where b: "loop_body rnd ns s = Some (ns1, s1)"
      and m: "merge_loop rnd ns1 s1 = Some (ns', s')"
      by (subst (asm) merge_loop.simps) (auto split: option.splits)
    from 1(1) [OF True b refl m] obtain ms where "steps s' = steps s1 @ ms"
      and "list_all is_merge_step ms"
      by blast
    moreover from loop_body_step [OF b] obtain st where "steps s1 = steps s @ [st]"
      and "is_merge_step st"
      by blast
    ultimately have "steps s' = steps s @ (st # ms) \<and> list_all is_merge_step (st # ms)" by simp
    then show ?thesis by blast
  qed
qed

lemma buildTree_Some:
  assumes "buildTree rnd fm s = Some (r, sF)"
  obtains ns0 s1 s2 ns2 s3 where
    "create_leaves rnd fm [] (s\<lparr>steps := [], currentStep := 0\<rparr>) = (ns0, s1)"
    and "addStep rnd ''Starting with the following nodes:'' (Some (sort_by_freq s1 ns0)) [] s1 = Some s2"
    and "merge_loop rnd (sort_by_freq s1 ns0) s2 = Some (ns2, s3)"
    and "sF = s3\<lparr>steps := steps s3 @ [final_step]\<rparr>"
    and "r = (case ns2 of [] \<Rightarrow> None | a # _ \<Rightarrow> Some a)"
  using assms
  by (auto simp: buildTree_def addStep_None final_step_def Let_def split: prod.splits bind_splits)

lemma buildTree_log:
  assumes "buildTree rnd fm s = Some (r, sF)"
  shows "\<exists>cs0 ms. steps sF =
           \<lparr>description = ''Starting with the following nodes:'', nodes = cs0, highlightNodes = []\<rparr>
             # ms @ [final_step] \<and> list_all is_merge_step ms"
proof -
  from assms obtain ns0 s1 s2 ns2 s3 where
    cl: "create_leaves rnd fm [] (s\<lparr>steps := [], currentStep := 0\<rparr>) = (ns0, s1)"
    and add: "addStep rnd ''Starting with the following nodes:'' (Some (sort_by_freq s1 ns0)) [] s1 = Some s2"
    and ml: "merge_loop rnd (sort_by_freq s1 ns0) s2 = Some (ns2, s3)"
    and sF: "sF = s3\<lparr>steps := steps s3 @ [final_step]\<rparr>"
    by (rule buildTree_Some)
  have "steps s1 = []" using cl by (simp add: create_leaves_eq) auto
  with addStep_frame(3) [OF add] obtain cs0 where
    "steps s2 = [\<lparr>description = ''Starting with the following nodes:'', nodes = cs0, highlightNodes = []\<rparr>]"
    by auto
  with merge_loop_steps [OF ml] sF show ?thesis by auto
qed

text \<open>
  C2. For a frequency table with \<open>n \<ge> 2\<close> entries, \<open>buildTree\<close> returns and leaves a log of
  exactly \<open>n + 1\<close> steps: the initial step, then \<open>n - 1\<close> merge steps (a recorded forest and
  two highlighted ids each), then the final step.
\<close>

theorem step_count:
  assumes "2 \<le> length fm"
  shows "\<exists>r s' cs0 ms. buildTree rnd fm s = Some (r, s') \<and> length (steps s') = length fm + 1 \<and>
           steps s' =
             \<lparr>description = ''Starting with the following nodes:'', nodes = cs0, highlightNodes = []\<rparr>
               # ms @ [final_step] \<and>
           length ms = length fm - 1 \<and> list_all is_merge_step ms"
proof -
  from assms have ne: "fm \<noteq> []" by auto
  obtain a t s3 cs where
    run: "buildTree rnd fm s = Some (Some a, s3\<lparr>steps := steps s3 @ [final_step]\<rparr>)"
    and len: "length (steps s3) = length fm"
    by (rule buildTree_run [OF ne, of rnd s]) blast
  from buildTree_log [OF run] obtain cs0 ms where
    log: "steps (s3\<lparr>steps := steps s3 @ [final_step]\<rparr>) =
           \<lparr>description = ''Starting with the following nodes:'', nodes = cs0, highlightNodes = []\<rparr>
             # ms @ [final_step]"
    and ms: "list_all is_merge_step ms"
    by blast
  from log len have "length ms = length fm - 1" by simp
  with run len log ms show ?thesis by auto
qed


text \<open>A source of identifiers for the examples: the \<open>n\<close>-th draw gives \<open>n\<close> followed by its digits.\<close>

definition rnd0 :: "nat \<Rightarrow> string" where
  "rnd0 n = CHR ''n'' # digits n"

definition fm3 :: "(string \<times> int) list" where
  "fm3 = [(''A'', 1), (''B'', 2), (''C'', 3)]"

theorem step_count_witness:
  "2 \<le> length fm3 \<and>
   (\<exists>r s' cs0 ms. buildTree rnd0 fm3 new_HuffmanCoding = Some (r, s') \<and> length (steps s') = 4 \<and>
      steps s' =
        \<lparr>description = ''Starting with the following nodes:'', nodes = cs0, highlightNodes = []\<rparr>
          # ms @ [final_step] \<and>
      length ms = 2 \<and> list_all is_merge_step ms)"
proof -
  have h: "2 \<le> length fm3" by (simp add: fm3_def)
  have "length fm3 + 1 = 4" "length fm3 - 1 = 2" by (simp_all add: fm3_def)
  with step_count [OF h, of rnd0 new_HuffmanCoding] h show ?thesis by simp
qed

lemma buildTree_total: "\<exists>r s'. buildTree rnd fm s = Some (r, s')"
proof (cases "fm = []")
  case True
  then show ?thesis by (simp add: buildTree_empty)
next
  case False
  obtain a t s3 cs where
    "buildTree rnd fm s = Some (Some a, s3\<lparr>steps := steps s3 @ [final_step]\<rparr>)"
    by (rule buildTree_run [OF False, of rnd s]) blast
  then show ?thesis by blast
qed

section \<open>The forest of the last step\<close>

definition fm2 :: "(string \<times> int) list" where
  "fm2 = [(''A'', 1), (''B'', 1)]"

text \<open>The table \<open>{A: 1, B: 1}\<close>, built on a new engine: the root returned and the state.\<close>

definition root_AB :: "addr option" where
  "root_AB = fst (the (buildTree rnd0 fm2 new_HuffmanCoding))"

definition built_AB :: state where
  "built_AB = snd (the (buildTree rnd0 fm2 new_HuffmanCoding))"

lemma built_AB_returns: "buildTree rnd0 fm2 new_HuffmanCoding \<noteq> None"
  by code_simp

lemma built_AB_nodes: "map nodes (steps built_AB) = [Some [Some 2, Some 3], Some [Some 5], None]"
  by code_simp

lemma built_AB_root: "root_AB = Some 8"
  by code_simp

lemma built_AB_freqs: "map freq (heap built_AB) = [1, 1, 1, 1, 2, 2, 1, 1, 2]"
  by code_simp

text \<open>
  C4. On the table \<open>{A: 1, B: 1}\<close> the log has three steps, and the last one records no
  forest: its \<^verbatim>\<open>nodes\<close> is \<^verbatim>\<open>null\<close>, where the claim has a forest of one root. The forest
  of one root, of frequency 2, is in the step before it, and the root returned has
  frequency 2.
\<close>

theorem final_step_forest:
  "buildTree rnd0 fm2 new_HuffmanCoding = Some (root_AB, built_AB) \<and>
   length (steps built_AB) = 3 \<and>
   nodes (last (steps built_AB)) = None \<and>
   nodes (steps built_AB ! 1) = Some [Some 5] \<and> freq (heap built_AB ! 5) = 2 \<and>
   root_AB = Some 8 \<and> freq (heap built_AB ! 8) = 2"
proof -
  have run: "buildTree rnd0 fm2 new_HuffmanCoding = Some (root_AB, built_AB)"
    unfolding root_AB_def built_AB_def
    using option.collapse [OF built_AB_returns] by simp
  have len: "length (steps built_AB) = 3"
    using arg_cong [OF built_AB_nodes, of length] by simp
  have n: "nodes (steps built_AB ! k) = map nodes (steps built_AB) ! k" if "k < 3" for k
    using that len by simp
  have "steps built_AB \<noteq> []" using len by auto
  then have "last (steps built_AB) = steps built_AB ! (length (steps built_AB) - 1)"
    by (rule last_conv_nth)
  then have l: "last (steps built_AB) = steps built_AB ! 2"
    by (simp add: len)
  have hl: "length (heap built_AB) = 9"
    using arg_cong [OF built_AB_freqs, of length] by simp
  have f: "freq (heap built_AB ! k) = map freq (heap built_AB) ! k" if "k < 9" for k
    using that hl by simp
  have "nodes (last (steps built_AB)) = None" and "nodes (steps built_AB ! 1) = Some [Some 5]"
    by (simp_all add: l n built_AB_nodes)
  moreover have "freq (heap built_AB ! 5) = 2" and "freq (heap built_AB ! 8) = 2"
    by (simp_all add: f built_AB_freqs)
  ultimately show ?thesis
    using run len built_AB_root by simp
qed

section \<open>Code derivation\<close>

text \<open>
  The bindings \<open>generateCodes\<close> makes on a tree, in the order it makes them: one for each
  leaf, from left to right, with the path from the root.
\<close>

fun code_list :: "tree \<Rightarrow> string \<Rightarrow> (string option \<times> string) list" where
  "code_list Null p = []"
| "code_list (Node a c f l r i) p =
     (if l = Null \<and> r = Null then [(c, p)]
      else code_list l (p @ ''0'') @ code_list r (p @ ''1''))"

definition bind_codes ::
  "(string option \<times> string) list \<Rightarrow> (string option \<rightharpoonup> string) \<Rightarrow> (string option \<rightharpoonup> string)" where
  "bind_codes cl m = fold (\<lambda>(c, q) m. m(c \<mapsto> q)) cl m"

lemma bind_codes_simps [simp]:
  "bind_codes [] m = m"
  "bind_codes ((c, q) # cl) m = bind_codes cl (m(c \<mapsto> q))"
  "bind_codes (cl @ cl') m = bind_codes cl' (bind_codes cl m)"
  by (simp_all add: bind_codes_def)

lemma bind_codes_notin: "c \<notin> fst ` set cl \<Longrightarrow> bind_codes cl m c = m c"
  by (induction cl arbitrary: m) auto

lemma bind_codes_in:
  "c \<in> fst ` set cl \<Longrightarrow> \<exists>q. bind_codes cl m c = Some q \<and> (c, q) \<in> set cl"
proof (induction cl arbitrary: m)
  case Nil
  then show ?case by simp
next
  case (Cons x cl)
  obtain c' q' where x: "x = (c', q')" by (cases x)
  show ?case
  proof (cases "c \<in> fst ` set cl")
    case True
    from Cons.IH [OF True, of "m(c' \<mapsto> q')"] obtain q where
      "bind_codes cl (m(c' \<mapsto> q')) c = Some q" and "(c, q) \<in> set cl"
      by blast
    then have "bind_codes (x # cl) m c = Some q \<and> (c, q) \<in> set (x # cl)"
      by (simp add: x)
    then show ?thesis by blast
  next
    case False
    with Cons.prems have "c = c'" by (auto simp: x)
    with False show ?thesis by (simp add: x bind_codes_notin)
  qed
qed

lemma code_list_fst: "map fst (code_list t p) = leaves t"
  by (induction t arbitrary: p) auto

lemma code_list_prefix: "(c, q) \<in> set (code_list t p) \<Longrightarrow> prefix p q"
proof (induction t arbitrary: p)
  case Null
  then show ?case by simp
next
  case (Node a c' f l r i)
  show ?case
  proof (cases "l = Null \<and> r = Null")
    case True
    with Node.prems show ?thesis by simp
  next
    case False
    with Node.prems consider "(c, q) \<in> set (code_list l (p @ ''0''))"
      | "(c, q) \<in> set (code_list r (p @ ''1''))"
      by auto
    then show ?thesis
    proof cases
      case 1
      from Node.IH(1) [OF 1] show ?thesis by (rule append_prefixD)
    next
      case 2
      from Node.IH(2) [OF 2] show ?thesis by (rule append_prefixD)
    qed
  qed
qed

lemma branches_apart:
  assumes "prefix (p @ [x]) q1" and "prefix (p @ [y]) q2" and "x \<noteq> y"
  shows "\<not> prefix q1 q2"
proof
  assume "prefix q1 q2"
  with assms(1) have "prefix (p @ [x]) q2" by (rule prefix_order.trans)
  from this assms(2) have "prefix (p @ [x]) (p @ [y]) \<or> prefix (p @ [y]) (p @ [x])"
    by (rule prefix_same_cases)
  with assms(3) show False by auto
qed

lemma code_list_prefix_free:
  "(c1, q1) \<in> set (code_list t p) \<Longrightarrow> (c2, q2) \<in> set (code_list t p) \<Longrightarrow> c1 \<noteq> c2 \<Longrightarrow>
   \<not> prefix q1 q2"
proof (induction t arbitrary: p)
  case Null
  then show ?case by simp
next
  case (Node a c f l r i)
  show ?case
  proof (cases "l = Null \<and> r = Null")
    case True
    with Node.prems show ?thesis by simp
  next
    case False
    with Node.prems(1) consider (l1) "(c1, q1) \<in> set (code_list l (p @ ''0''))"
      | (r1) "(c1, q1) \<in> set (code_list r (p @ ''1''))"
      by auto
    then show ?thesis
    proof cases
      case l1
      from False Node.prems(2) consider (l2) "(c2, q2) \<in> set (code_list l (p @ ''0''))"
        | (r2) "(c2, q2) \<in> set (code_list r (p @ ''1''))"
        by auto
      then show ?thesis
      proof cases
        case l2
        from Node.IH(1) [OF l1 l2 Node.prems(3)] show ?thesis .
      next
        case r2
        show ?thesis
          by (rule branches_apart [OF code_list_prefix [OF l1] code_list_prefix [OF r2]]) simp
      qed
    next
      case r1
      from False Node.prems(2) consider (l2) "(c2, q2) \<in> set (code_list l (p @ ''0''))"
        | (r2) "(c2, q2) \<in> set (code_list r (p @ ''1''))"
        by auto
      then show ?thesis
      proof cases
        case l2
        show ?thesis
          by (rule branches_apart [OF code_list_prefix [OF r1] code_list_prefix [OF l2]]) simp
      next
        case r2
        from Node.IH(2) [OF r1 r2 Node.prems(3)] show ?thesis .
      qed
    qed
  qed
qed

lemma generateCodes_tree:
  "heap_tree (heap s) t \<Longrightarrow> full t \<Longrightarrow>
   generateCodes (ref t) p s = Some (s\<lparr>codes := bind_codes (code_list t p) (codes s)\<rparr>)"
proof (induction t arbitrary: p s)
  case Null
  then show ?case by simp
next
  case (Node a c f l r i)
  from Node.prems(1) have a: "a < length (heap s)"
    and cell: "heap s ! a = \<lparr>char = c, freq = f, left = ref l, right = ref r, id' = i\<rparr>"
    and hl: "heap_tree (heap s) l" and hr: "heap_tree (heap s) r"
    by simp_all
  show ?case
  proof (cases "l = Null \<and> r = Null")
    case True
    then have "isLeaf (heap s ! a)" by (simp add: cell isLeaf_def)
    then show ?thesis
      using True by (subst generateCodes.simps) (simp add: cell)
  next
    case False
    with Node.prems(2) have fl: "full l" and fr: "full r" by auto
    then have lnn: "l \<noteq> Null" by auto
    then have nl: "\<not> isLeaf (heap s ! a)" by (cases l) (simp_all add: cell isLeaf_def)
    let ?s1 = "s\<lparr>codes := bind_codes (code_list l (p @ ''0'')) (codes s)\<rparr>"
    have g1: "generateCodes (ref l) (p @ ''0'') s = Some ?s1"
      by (rule Node.IH(1) [OF hl fl])
    have "heap_tree (heap ?s1) r" using hr by simp
    from Node.IH(2) [OF this fr, of "p @ ''1''"]
    have g2: "generateCodes (ref r) (p @ ''1'') ?s1
                = Some (s\<lparr>codes := bind_codes (code_list r (p @ ''1''))
                                      (bind_codes (code_list l (p @ ''0'')) (codes s))\<rparr>)"
      by simp
    show ?thesis
      using lnn nl by (subst generateCodes.simps) (simp add: cell g1 g2)
  qed
qed

lemma dom_bind_codes: "dom (bind_codes cl m) = dom m \<union> fst ` set cl"
proof (induction cl arbitrary: m)
  case Nil
  then show ?case by simp
next
  case (Cons x cl)
  obtain c q where x: "x = (c, q)" by (cases x)
  have "dom (bind_codes (x # cl) m) = dom (bind_codes cl (m(c \<mapsto> q)))"
    by (simp only: x bind_codes_simps)
  also have "\<dots> = dom (m(c \<mapsto> q)) \<union> fst ` set cl" by (rule Cons.IH)
  also have "\<dots> = dom m \<union> fst ` set (x # cl)" by (simp add: x)
  finally show ?case .
qed

lemma leaves_of_summary:
  assumes "summary [t] = (x, mset (map (Some \<circ> fst) fm))"
  shows "set (leaves t) = Some ` fst ` set fm"
proof -
  from assms have "mset (leaves t) = mset (map (Some \<circ> fst) fm)" by (simp add: summary_def)
  then have "set_mset (mset (leaves t)) = set_mset (mset (map (Some \<circ> fst) fm))" by simp
  then show ?thesis by (simp add: image_comp)
qed

text \<open>
  What a construction followed by a code derivation gives: the codes map afterwards is the
  one before, with the bindings of the new tree's leaves made on top of it.
\<close>

lemma build_and_derive:
  assumes ne: "fm \<noteq> []"
  obtains a t s1 where
    "buildTree rnd fm s = Some (Some a, s1)" and "codes s1 = codes s"
    and "generateCodes (Some a) [] s1 = Some (s1\<lparr>codes := bind_codes (code_list t []) (codes s)\<rparr>)"
    and "fst ` set (code_list t []) = Some ` fst ` set fm"
proof -
  obtain a t s3 cs0 where
    run: "buildTree rnd fm s = Some (Some a, s3\<lparr>steps := steps s3 @ [final_step]\<rparr>)"
    and ra: "repr (heap s3) (Some a) t" and ft: "full t"
    and su: "summary [t] = (sum_list (map snd fm), mset (map (Some \<circ> fst) fm))"
    and "length (steps s3) = length fm"
    and "hd (steps s3) = \<lparr>description = ''Starting with the following nodes:'', nodes = Some cs0,
           highlightNodes = []\<rparr>"
    and "2 \<le> length fm \<Longrightarrow> last_merge s3 (root_freq t)"
    and sb: "same_but_log (s\<lparr>currentStep := 0\<rparr>) s3"
    by (rule buildTree_run [OF ne, of rnd s]) blast
  let ?s1 = "s3\<lparr>steps := steps s3 @ [final_step]\<rparr>"
  from ra have rt: "ref t = Some a" and ht: "heap_tree (heap ?s1) t" by (simp_all add: repr_def)
  have c1: "codes ?s1 = codes s" using sb by (simp add: same_but_log_def)
  from generateCodes_tree [OF ht ft, of "[]"]
  have g: "generateCodes (Some a) [] ?s1 = Some (?s1\<lparr>codes := bind_codes (code_list t []) (codes s)\<rparr>)"
    by (simp add: rt c1)
  have "fst ` set (code_list t []) = set (map fst (code_list t []))" by simp
  also have "\<dots> = set (leaves t)" by (simp only: code_list_fst)
  also have "\<dots> = Some ` fst ` set fm" by (rule leaves_of_summary [OF su])
  finally have k: "fst ` set (code_list t []) = Some ` fst ` set fm" .
  show thesis by (rule that [OF run c1 g k])
qed

text \<open>
  C5. For a frequency table with at least 2 entries, \<open>buildTree\<close> returns a root and
  \<open>generateCodes\<close> returns on it; afterwards every symbol of the table has a code, and the
  code of a symbol is never a prefix of the code of another symbol of the table. When the
  codes map was empty before, the symbols of the table are all its keys.
\<close>

theorem codes_prefix_free:
  assumes "2 \<le> length fm"
  shows "\<exists>a s1 s2.
           buildTree rnd fm s = Some (Some a, s1) \<and> generateCodes (Some a) [] s1 = Some s2 \<and>
           (\<forall>x \<in> fst ` set fm. \<forall>y \<in> fst ` set fm. x \<noteq> y \<longrightarrow>
              (\<exists>p q. codes s2 (Some x) = Some p \<and> codes s2 (Some y) = Some q \<and> \<not> prefix p q)) \<and>
           (codes s = Map.empty \<longrightarrow> dom (codes s2) = Some ` fst ` set fm)"
proof -
  from assms have ne: "fm \<noteq> []" by auto
  obtain a t s1 where run: "buildTree rnd fm s = Some (Some a, s1)"
    and "codes s1 = codes s"
    and g: "generateCodes (Some a) [] s1 = Some (s1\<lparr>codes := bind_codes (code_list t []) (codes s)\<rparr>)"
    and k: "fst ` set (code_list t []) = Some ` fst ` set fm"
    by (rule build_and_derive [OF ne, of rnd s])
  let ?cl = "code_list t []"
  let ?s2 = "s1\<lparr>codes := bind_codes ?cl (codes s)\<rparr>"
  have pf: "\<exists>p q. codes ?s2 (Some x) = Some p \<and> codes ?s2 (Some y) = Some q \<and> \<not> prefix p q"
    if x: "x \<in> fst ` set fm" and y: "y \<in> fst ` set fm" and xy: "x \<noteq> y" for x y
  proof -
    from x have "Some x \<in> Some ` fst ` set fm" by (rule imageI)
    then have "Some x \<in> fst ` set ?cl" by (simp only: k)
    from bind_codes_in [OF this, of "codes s"] obtain p where
      p: "bind_codes ?cl (codes s) (Some x) = Some p" and pin: "(Some x, p) \<in> set ?cl"
      by blast
    from y have "Some y \<in> Some ` fst ` set fm" by (rule imageI)
    then have "Some y \<in> fst ` set ?cl" by (simp only: k)
    from bind_codes_in [OF this, of "codes s"] obtain q where
      q: "bind_codes ?cl (codes s) (Some y) = Some q" and qin: "(Some y, q) \<in> set ?cl"
      by blast
    from xy have "Some x \<noteq> Some y" by simp
    from code_list_prefix_free [OF pin qin this] p q show ?thesis by simp
  qed
  have d: "dom (codes ?s2) = Some ` fst ` set fm" if "codes s = Map.empty"
    using that k by (simp add: dom_bind_codes)
  show ?thesis
  proof (intro exI conjI)
    show "buildTree rnd fm s = Some (Some a, s1)" by (rule run)
    show "generateCodes (Some a) [] s1 = Some ?s2" by (rule g)
    show "\<forall>x \<in> fst ` set fm. \<forall>y \<in> fst ` set fm. x \<noteq> y \<longrightarrow>
            (\<exists>p q. codes ?s2 (Some x) = Some p \<and> codes ?s2 (Some y) = Some q \<and> \<not> prefix p q)"
      by (intro ballI impI) (rule pf)
    show "codes s = Map.empty \<longrightarrow> dom (codes ?s2) = Some ` fst ` set fm"
      by (intro impI) (rule d)
  qed
qed

theorem codes_prefix_free_witness:
  "2 \<le> length fm3 \<and> ''A'' \<in> fst ` set fm3 \<and> ''C'' \<in> fst ` set fm3 \<and> ''A'' \<noteq> ''C'' \<and>
   codes new_HuffmanCoding = Map.empty \<and>
   (\<exists>a s1 s2 p q.
      buildTree rnd0 fm3 new_HuffmanCoding = Some (Some a, s1) \<and>
      generateCodes (Some a) [] s1 = Some s2 \<and>
      codes s2 (Some ''A'') = Some p \<and> codes s2 (Some ''C'') = Some q \<and> \<not> prefix p q \<and>
      dom (codes s2) = {Some ''A'', Some ''B'', Some ''C''})"
proof -
  have h: "2 \<le> length fm3" by (simp add: fm3_def)
  have a: "''A'' \<in> fst ` set fm3" and c: "''C'' \<in> fst ` set fm3" and ac: "''A'' \<noteq> ''C''"
    by (simp_all add: fm3_def)
  have e: "codes new_HuffmanCoding = Map.empty" by (simp add: new_HuffmanCoding_def)
  have k: "Some ` fst ` set fm3 = {Some ''A'', Some ''B'', Some ''C''}" by (simp add: fm3_def)
  from codes_prefix_free [OF h, of rnd0 new_HuffmanCoding] obtain r s1 s2 where
    b: "buildTree rnd0 fm3 new_HuffmanCoding = Some (Some r, s1)"
    and g: "generateCodes (Some r) [] s1 = Some s2"
    and pf: "\<forall>x \<in> fst ` set fm3. \<forall>y \<in> fst ` set fm3. x \<noteq> y \<longrightarrow>
              (\<exists>p q. codes s2 (Some x) = Some p \<and> codes s2 (Some y) = Some q \<and> \<not> prefix p q)"
    and d: "codes new_HuffmanCoding = Map.empty \<longrightarrow> dom (codes s2) = Some ` fst ` set fm3"
    by (elim exE conjE) (rule that)
  from pf [rule_format, OF a c ac] obtain p q where
    p: "codes s2 (Some ''A'') = Some p" and q: "codes s2 (Some ''C'') = Some q"
    and np: "\<not> prefix p q"
    by (elim exE conjE) (rule that)
  from d e have dd: "dom (codes s2) = {Some ''A'', Some ''B'', Some ''C''}" by (simp only: k)
  have "\<exists>a s1 s2 p q.
      buildTree rnd0 fm3 new_HuffmanCoding = Some (Some a, s1) \<and>
      generateCodes (Some a) [] s1 = Some s2 \<and>
      codes s2 (Some ''A'') = Some p \<and> codes s2 (Some ''C'') = Some q \<and> \<not> prefix p q \<and>
      dom (codes s2) = {Some ''A'', Some ''B'', Some ''C''}"
    by (intro exI conjI) (rule b, rule g, rule p, rule q, rule np, rule dd)
  then show ?thesis
    by (intro conjI) (rule h, rule a, rule c, rule ac, rule e)
qed

section \<open>The codes map across constructions\<close>

text \<open>
  C10. Neither \<open>buildTree\<close> nor \<open>generateCodes\<close> clears the codes map. After a construction
  from a table \<open>fm\<close> and a derivation from its root, started in a state \<open>s\<close> whose map may
  hold the codes of an earlier tree, every key that is not a symbol of \<open>fm\<close> is bound as it
  was in \<open>s\<close>, and no key of \<open>s\<close> is lost. Recording a step, moving the cursor, pausing and
  setting the speed leave the map as it is; \<open>reset\<close> empties it.
\<close>

theorem codes_accumulate:
  assumes "fm \<noteq> []"
  shows "\<exists>a s1 s2.
           buildTree rnd fm s = Some (Some a, s1) \<and> codes s1 = codes s \<and>
           generateCodes (Some a) [] s1 = Some s2 \<and>
           (\<forall>k. k \<notin> fst ` set fm \<longrightarrow> codes s2 (Some k) = codes s (Some k)) \<and>
           codes s2 None = codes s None \<and>
           dom (codes s) \<subseteq> dom (codes s2) \<and>
           (\<forall>d ns hl s'. addStep rnd d ns hl s2 = Some s' \<longrightarrow> codes s' = codes s2) \<and>
           codes (snd (nextStep s2)) = codes s2 \<and> codes (snd (prevStep s2)) = codes s2 \<and>
           codes (pause s2) = codes s2 \<and> codes (setAnimationSpeed v s2) = codes s2 \<and>
           codes (reset s2) = Map.empty"
proof -
  obtain a t s1 where run: "buildTree rnd fm s = Some (Some a, s1)"
    and c1: "codes s1 = codes s"
    and g: "generateCodes (Some a) [] s1 = Some (s1\<lparr>codes := bind_codes (code_list t []) (codes s)\<rparr>)"
    and k: "fst ` set (code_list t []) = Some ` fst ` set fm"
    by (rule build_and_derive [OF assms, of rnd s])
  let ?s2 = "s1\<lparr>codes := bind_codes (code_list t []) (codes s)\<rparr>"
  have other: "codes ?s2 c = codes s c" if "c \<notin> Some ` fst ` set fm" for c
    using that by (simp add: bind_codes_notin k)
  show ?thesis
  proof (intro exI conjI)
    show "buildTree rnd fm s = Some (Some a, s1)" by (rule run)
    show "codes s1 = codes s" by (rule c1)
    show "generateCodes (Some a) [] s1 = Some ?s2" by (rule g)
    show "\<forall>k. k \<notin> fst ` set fm \<longrightarrow> codes ?s2 (Some k) = codes s (Some k)"
    proof (intro allI impI)
      fix k assume "k \<notin> fst ` set fm"
      then have "Some k \<notin> Some ` fst ` set fm" by auto
      then show "codes ?s2 (Some k) = codes s (Some k)" by (rule other)
    qed
    show "codes ?s2 None = codes s None" by (rule other) auto
    show "dom (codes s) \<subseteq> dom (codes ?s2)" by (simp add: dom_bind_codes)
    show "\<forall>d ns hl s'. addStep rnd d ns hl ?s2 = Some s' \<longrightarrow> codes s' = codes ?s2"
    proof (intro allI impI)
      fix d ns hl s' assume "addStep rnd d ns hl ?s2 = Some s'"
      from addStep_frame(2) [OF this] show "codes s' = codes ?s2" by (simp add: same_but_log_def)
    qed
    show "codes (snd (nextStep ?s2)) = codes ?s2" by (simp add: nextStep_def)
    show "codes (snd (prevStep ?s2)) = codes ?s2" by (simp add: prevStep_def)
    show "codes (pause ?s2) = codes ?s2" by (simp add: pause_def)
    show "codes (setAnimationSpeed v ?s2) = codes ?s2" by (simp add: setAnimationSpeed_def)
    show "codes (reset ?s2) = Map.empty" by (simp add: reset_def)
  qed
qed

text \<open>
  An engine that has built the tree of \<open>{A: 1, B: 1}\<close> and derived its codes; then the table
  \<open>{C: 1, D: 2}\<close>.
\<close>

definition derived_AB :: state where
  "derived_AB =
     the (generateCodes (fst (the (buildTree rnd0 fm2 new_HuffmanCoding))) []
            (snd (the (buildTree rnd0 fm2 new_HuffmanCoding))))"

definition fm_CD :: "(string \<times> int) list" where
  "fm_CD = [(''C'', 1), (''D'', 2)]"

lemma derived_AB_A: "codes derived_AB (Some ''A'') = Some ''0''"
  by code_simp

theorem codes_accumulate_witness:
  "fm_CD \<noteq> [] \<and> ''A'' \<notin> fst ` set fm_CD \<and> codes derived_AB (Some ''A'') = Some ''0'' \<and>
   (\<exists>a s1 s2 s'.
      buildTree rnd0 fm_CD derived_AB = Some (Some a, s1) \<and> codes s1 = codes derived_AB \<and>
      generateCodes (Some a) [] s1 = Some s2 \<and> codes s2 (Some ''A'') = Some ''0'' \<and>
      addStep rnd0 ''x'' None [] s2 = Some s' \<and> codes s' = codes s2 \<and>
      codes (reset s2) = Map.empty)"
proof -
  have h: "fm_CD \<noteq> []" by (simp add: fm_CD_def)
  have n: "''A'' \<notin> fst ` set fm_CD" by (simp add: fm_CD_def)
  from codes_accumulate [OF h, of rnd0 derived_AB 0] obtain a s1 s2 where
    b: "buildTree rnd0 fm_CD derived_AB = Some (Some a, s1)" and c1: "codes s1 = codes derived_AB"
    and g: "generateCodes (Some a) [] s1 = Some s2"
    and k: "\<forall>k. k \<notin> fst ` set fm_CD \<longrightarrow> codes s2 (Some k) = codes derived_AB (Some k)"
    and ad: "\<forall>d ns hl s'. addStep rnd0 d ns hl s2 = Some s' \<longrightarrow> codes s' = codes s2"
    and r: "codes (reset s2) = Map.empty"
    by (elim exE conjE) (rule that)
  from k [rule_format, OF n] have ka: "codes s2 (Some ''A'') = Some ''0''"
    by (simp only: derived_AB_A)
  have st: "addStep rnd0 ''x'' None [] s2
              = Some (s2\<lparr>steps := steps s2 @ [\<lparr>description = ''x'', nodes = None, highlightNodes = []\<rparr>]\<rparr>)"
    by (rule addStep_None)
  from ad [rule_format, OF st]
  have cs: "codes (s2\<lparr>steps := steps s2 @ [\<lparr>description = ''x'', nodes = None, highlightNodes = []\<rparr>]\<rparr>)
              = codes s2" .
  have "\<exists>a s1 s2 s'.
      buildTree rnd0 fm_CD derived_AB = Some (Some a, s1) \<and> codes s1 = codes derived_AB \<and>
      generateCodes (Some a) [] s1 = Some s2 \<and> codes s2 (Some ''A'') = Some ''0'' \<and>
      addStep rnd0 ''x'' None [] s2 = Some s' \<and> codes s' = codes s2 \<and>
      codes (reset s2) = Map.empty"
    by (intro exI conjI) (rule b, rule c1, rule g, rule ka, rule st, rule cs, rule r)
  then show ?thesis
    by (intro conjI) (rule h, rule n, rule derived_AB_A)
qed

section \<open>Two divergences of the code\<close>

text \<open>The single-symbol table \<open>{X: 7}\<close>, built and derived on a new engine.\<close>

definition fm_X :: "(string \<times> int) list" where
  "fm_X = [(''X'', 7)]"

definition built_X :: "addr option \<times> state" where
  "built_X = the (buildTree rnd0 fm_X new_HuffmanCoding)"

definition derived_X :: state where
  "derived_X = the (generateCodes (fst built_X) [] (snd built_X))"

lemma built_X_returns: "buildTree rnd0 fm_X new_HuffmanCoding \<noteq> None"
  by code_simp

lemma derived_X_returns: "generateCodes (fst built_X) [] (snd built_X) \<noteq> None"
  by code_simp

lemma derived_X_code: "codes derived_X (Some ''X'') = Some []"
  by code_simp

text \<open>
  C6. On the single-symbol table \<open>{X: 7}\<close> the root \<open>buildTree\<close> returns is a leaf, and
  \<open>generateCodes\<close>, called on it with the default path, binds \<open>X\<close> to the path so far, the empty
  string; the one-character code \<open>0\<close> is not what the map holds.
\<close>

theorem single_symbol_code:
  "buildTree rnd0 fm_X new_HuffmanCoding = Some built_X \<and>
   generateCodes (fst built_X) [] (snd built_X) = Some derived_X \<and>
   codes derived_X (Some ''X'') = Some [] \<and> codes derived_X (Some ''X'') \<noteq> Some ''0''"
proof -
  have b: "buildTree rnd0 fm_X new_HuffmanCoding = Some built_X"
    unfolding built_X_def by (rule option.collapse [OF built_X_returns, symmetric])
  have g: "generateCodes (fst built_X) [] (snd built_X) = Some derived_X"
    unfolding derived_X_def by (rule option.collapse [OF derived_X_returns, symmetric])
  show ?thesis
    using b g derived_X_code by simp
qed


text \<open>The table \<open>{A: 1, B: 2, C: 3}\<close>, built on a new engine: its store and its log.\<close>

definition built_ABC :: state where
  "built_ABC = snd (the (buildTree rnd0 fm3 new_HuffmanCoding))"

lemma built_ABC_returns: "buildTree rnd0 fm3 new_HuffmanCoding \<noteq> None"
  by code_simp

lemma built_ABC_heap:
  "heap built_ABC =
   [\<lparr>char = Some ''A'', freq = 1, left = None, right = None, id' = ''n0''\<rparr>,
    \<lparr>char = Some ''B'', freq = 2, left = None, right = None, id' = ''n1''\<rparr>,
    \<lparr>char = Some ''C'', freq = 3, left = None, right = None, id' = ''n2''\<rparr>,
    \<lparr>char = Some ''A'', freq = 1, left = None, right = None, id' = ''n0''\<rparr>,
    \<lparr>char = Some ''B'', freq = 2, left = None, right = None, id' = ''n1''\<rparr>,
    \<lparr>char = Some ''C'', freq = 3, left = None, right = None, id' = ''n2''\<rparr>,
    \<lparr>char = None, freq = 3, left = Some 0, right = Some 1, id' = ''n6''\<rparr>,
    \<lparr>char = None, freq = 3, left = Some 8, right = Some 9, id' = ''n6''\<rparr>,
    \<lparr>char = Some ''A'', freq = 1, left = None, right = None, id' = ''n0''\<rparr>,
    \<lparr>char = Some ''B'', freq = 2, left = None, right = None, id' = ''n1''\<rparr>,
    \<lparr>char = Some ''C'', freq = 3, left = None, right = None, id' = ''n2''\<rparr>,
    \<lparr>char = None, freq = 3, left = Some 0, right = Some 1, id' = ''n11''\<rparr>,
    \<lparr>char = None, freq = 6, left = Some 11, right = Some 2, id' = ''n12''\<rparr>,
    \<lparr>char = None, freq = 6, left = Some 14, right = Some 17, id' = ''n12''\<rparr>,
    \<lparr>char = None, freq = 3, left = Some 15, right = Some 16, id' = ''n11''\<rparr>,
    \<lparr>char = Some ''A'', freq = 1, left = None, right = None, id' = ''n0''\<rparr>,
    \<lparr>char = Some ''B'', freq = 2, left = None, right = None, id' = ''n1''\<rparr>,
    \<lparr>char = Some ''C'', freq = 3, left = None, right = None, id' = ''n2''\<rparr>,
    \<lparr>char = None, freq = 6, left = Some 11, right = Some 2, id' = ''n18''\<rparr>]"
  by code_simp

lemma built_ABC_nodes:
  "map nodes (steps built_ABC) =
     [Some [Some 3, Some 4, Some 5], Some [Some 7, Some 10], Some [Some 13], None]"
  by code_simp

lemma built_ABC_highlight:
  "map highlightNodes (steps built_ABC) = [[], [''n0'', ''n1''], [''n11'', ''n2''], []]"
  by code_simp

text \<open>
  C9. On the table \<open>{A: 1, B: 2, C: 3}\<close>, with distinct identifiers drawn, the node that
  merges \<open>A\<close> and \<open>B\<close> is in the forest of step 1 (its merge step) under the identifier
  \<open>n6\<close>, and in the forest of step 2, as the left child of the root, under the identifier
  \<open>n11\<close>, which is also the one step 2 highlights: the merge step records a copy of a node
  made for the record alone, and the node kept in the forest is a second one.
\<close>

theorem merged_node_ids:
  "buildTree rnd0 fm3 new_HuffmanCoding \<noteq> None \<and>
   nodes (steps built_ABC ! 1) = Some [Some 7, Some 10] \<and>
   heap built_ABC ! 7 = \<lparr>char = None, freq = 3, left = Some 8, right = Some 9, id' = ''n6''\<rparr> \<and>
   nodes (steps built_ABC ! 2) = Some [Some 13] \<and>
   heap built_ABC ! 13 = \<lparr>char = None, freq = 6, left = Some 14, right = Some 17, id' = ''n12''\<rparr> \<and>
   heap built_ABC ! 14 = \<lparr>char = None, freq = 3, left = Some 15, right = Some 16, id' = ''n11''\<rparr> \<and>
   heap built_ABC ! 8 = heap built_ABC ! 15 \<and> heap built_ABC ! 9 = heap built_ABC ! 16 \<and>
   highlightNodes (steps built_ABC ! 2) = [''n11'', ''n2''] \<and>
   id' (heap built_ABC ! 7) \<noteq> id' (heap built_ABC ! 14)"
proof -
  have len: "length (steps built_ABC) = 4"
    using arg_cong [OF built_ABC_nodes, of length] by simp
  have n: "nodes (steps built_ABC ! k) = map nodes (steps built_ABC) ! k" if "k < 4" for k
    using that len by simp
  have h: "highlightNodes (steps built_ABC ! k) = map highlightNodes (steps built_ABC) ! k"
    if "k < 4" for k
    using that len by simp
  have "nodes (steps built_ABC ! 1) = Some [Some 7, Some 10]"
    and "nodes (steps built_ABC ! 2) = Some [Some 13]"
    by (simp_all add: n built_ABC_nodes)
  moreover have "highlightNodes (steps built_ABC ! 2) = [''n11'', ''n2'']"
    by (simp add: h built_ABC_highlight)
  ultimately show ?thesis
    using built_ABC_returns by (simp add: built_ABC_heap)
qed

section \<open>The iterations of the merge loop\<close>

text \<open>
  The states in which \<open>buildTree rnd fm s0\<close> tests the condition of its loop, with the
  array \<^verbatim>\<open>nodes\<close> at that moment: the state after the initial step, and the state
  after each run of the body.
\<close>

inductive loop_state ::
  "(nat \<Rightarrow> string) \<Rightarrow> (string \<times> int) list \<Rightarrow> state \<Rightarrow> addr list \<Rightarrow> state \<Rightarrow> bool"
  for rnd fm s0 where
  enter:
    "create_leaves rnd fm [] (s0\<lparr>steps := [], currentStep := 0\<rparr>) = (ns0, s1) \<Longrightarrow>
     addStep rnd ''Starting with the following nodes:'' (Some (sort_by_freq s1 ns0)) [] s1 = Some s2 \<Longrightarrow>
     loop_state rnd fm s0 (sort_by_freq s1 ns0) s2"
| iterate:
    "loop_state rnd fm s0 ns s \<Longrightarrow> 1 < length ns \<Longrightarrow> loop_body rnd ns s = Some (ns', s') \<Longrightarrow>
     loop_state rnd fm s0 ns' s'"

code_pred (modes: i \<Rightarrow> i \<Rightarrow> i \<Rightarrow> o \<Rightarrow> o \<Rightarrow> bool) loop_state .

lemma loop_state_forest:
  "loop_state rnd fm s0 ns s \<Longrightarrow> \<exists>ts. list_all2 (repr (heap s)) (map Some ns) ts"
proof (induction rule: loop_state.induct)
  case (enter ns0 s1 s2)
  let ?n = "length (heap s0)"
  from enter(1) have ns0: "ns0 = [?n ..< ?n + length fm]"
    and h1: "heap s1 = heap s0 @ leaf_cells rnd (draws s0) fm"
    by (auto simp: create_leaves_eq)
  have "list_all2 (repr (heap s1)) (map Some ns0) (leaf_trees rnd ?n (draws s0) fm)"
    unfolding h1 ns0 by (rule leaf_trees_repr) simp
  moreover have "mset (map Some (sort_by_freq s1 ns0)) = mset (map Some ns0)" by simp
  ultimately obtain ts where "list_all2 (repr (heap s1)) (map Some (sort_by_freq s1 ns0)) ts"
    using list_all2_permuted by blast
  from list_repr_kept [OF this addStep_frame(1) [OF enter(2)]] show ?case by blast
next
  case (iterate ns s ns' s')
  from iterate.IH obtain ts where f: "list_all2 (repr (heap s)) (map Some ns) ts" by blast
  from iterate.hyps(2) have two: "2 \<le> length ns" by simp
  obtain l r rest t1 t2 trest cs ts' s1 i where
    "sort_by_freq s ns = l # r # rest"
    and "list_all2 (repr (heap s)) (map Some (l # r # rest)) (t1 # t2 # trest)"
    and "mset (t1 # t2 # trest) = mset ts"
    and b: "loop_body rnd ns s = Some (i # rest, s1)"
    and f1: "list_all2 (repr (heap s1)) (map Some (i # rest))
           (Node i None (root_freq t1 + root_freq t2) t1 t2 (rnd (draws s1 - 1)) # trest)"
    by (rule loop_body_forest [OF f two, of rnd]) blast
  from b iterate.hyps(3) have "ns' = i # rest" "s' = s1" by simp_all
  with f1 show ?case by blast
qed

lemma loop_state_enter:
  "\<exists>ns s. loop_state rnd fm s0 ns s \<and> length ns = length fm"
proof -
  let ?n = "length (heap s0)"
  let ?s0 = "s0\<lparr>steps := [], currentStep := 0\<rparr>"
  let ?ns0 = "[?n ..< ?n + length fm]"
  define s1 where "s1 = ?s0\<lparr>heap := heap ?s0 @ leaf_cells rnd (draws ?s0) fm,
                              draws := draws ?s0 + length fm\<rparr>"
  have cl: "create_leaves rnd fm [] ?s0 = (?ns0, s1)"
    by (simp add: create_leaves_eq s1_def)
  have h1: "heap s1 = heap s0 @ leaf_cells rnd (draws s0) fm" by (simp add: s1_def)
  have "list_all2 (repr (heap s1)) (map Some ?ns0) (leaf_trees rnd ?n (draws s0) fm)"
    unfolding h1 by (rule leaf_trees_repr) simp
  moreover have "mset (map Some (sort_by_freq s1 ?ns0)) = mset (map Some ?ns0)" by simp
  ultimately obtain ts where f: "list_all2 (repr (heap s1)) (map Some (sort_by_freq s1 ?ns0)) ts"
    using list_all2_permuted by blast
  from addStep_forest [OF f, of rnd "''Starting with the following nodes:''" "[]"]
  obtain s2 where
    "addStep rnd ''Starting with the following nodes:'' (Some (sort_by_freq s1 ?ns0)) [] s1 = Some s2"
    by blast
  from loop_state.enter [OF cl this] have "loop_state rnd fm s0 (sort_by_freq s1 ?ns0) s2" .
  moreover have "length (sort_by_freq s1 ?ns0) = length fm" by simp
  ultimately show ?thesis by blast
qed

lemma merge_loop_loop_state:
  "merge_loop rnd ns s = Some (ns', s') \<Longrightarrow> loop_state rnd fm s0 ns s \<Longrightarrow>
   loop_state rnd fm s0 ns' s' \<and> length ns' \<le> 1"
proof (induction rnd ns s rule: merge_loop.induct)
  case (1 rnd ns s)
  show ?case
  proof (cases "1 < length ns")
    case False
    with 1(2,3) show ?thesis by (simp add: merge_loop.simps)
  next
    case True
    with 1(2) obtain ns1 s1 where b: "loop_body rnd ns s = Some (ns1, s1)"
      and m: "merge_loop rnd ns1 s1 = Some (ns', s')"
      by (subst (asm) merge_loop.simps) (auto split: option.splits)
    from loop_state.iterate [OF 1(3) True b] have "loop_state rnd fm s0 ns1 s1" .
    from 1(1) [OF True b refl m this] show ?thesis .
  qed
qed

lemma sorted_front:
  assumes "sorted (map f (a # b # rest))"
  shows "f a \<le> f b" and "\<forall>c \<in> set rest. f b \<le> f c"
  using assms by auto

text \<open>
  C1. For a frequency table with at least 2 entries, \<open>buildTree\<close> returns, its first and its
  last step highlight nothing, it leaves the loop in one of the loop states, and it enters
  the loop with more than one root, so the body runs at least once. In every
  loop state with more than one root the body of the loop returns: it takes the first two
  roots \<open>a\<close> and \<open>b\<close> of the forest sorted by frequency, so that \<open>a\<close> has at most the
  frequency of \<open>b\<close>, and \<open>b\<close> at most that of every remaining root; the forest afterwards is
  one new internal node, with \<open>a\<close> and \<open>b\<close> as its children and the sum of their frequencies,
  followed by the remaining roots; and the one step it records highlights exactly the ids
  of \<open>a\<close> and \<open>b\<close>.
\<close>

theorem merge_iteration:
  assumes "2 \<le> length fm"
  shows "(\<exists>r sF ns s.
            buildTree rnd fm s0 = Some (r, sF) \<and>
            highlightNodes (hd (steps sF)) = [] \<and> highlightNodes (last (steps sF)) = [] \<and>
            loop_state rnd fm s0 ns s \<and> sF = s\<lparr>steps := steps s @ [final_step]\<rparr>) \<and>
         (\<exists>ns s. loop_state rnd fm s0 ns s \<and> 1 < length ns) \<and>
         (\<forall>ns s. loop_state rnd fm s0 ns s \<and> 1 < length ns \<longrightarrow>
            (\<exists>a b rest i s' cs.
               sort_by_freq s ns = a # b # rest \<and> mset (a # b # rest) = mset ns \<and>
               freq (heap s ! a) \<le> freq (heap s ! b) \<and>
               (\<forall>c \<in> set rest. freq (heap s ! b) \<le> freq (heap s ! c)) \<and>
               loop_body rnd ns s = Some (i # rest, s') \<and>
               length (heap s) < i \<and>
               heap s' ! i = \<lparr>char = None, freq = freq (heap s ! a) + freq (heap s ! b),
                               left = Some a, right = Some b, id' = rnd (draws s' - 1)\<rparr> \<and>
               steps s' = steps s @
                 [\<lparr>description = combining_description (heap s ! a) (heap s ! b), nodes = Some cs,
                   highlightNodes = [id' (heap s ! a), id' (heap s ! b)]\<rparr>]))"
proof (intro conjI allI impI)
  from buildTree_total obtain r sF where run: "buildTree rnd fm s0 = Some (r, sF)" by blast
  then obtain ns0 s1 s2 ns2 s3 where
    cl: "create_leaves rnd fm [] (s0\<lparr>steps := [], currentStep := 0\<rparr>) = (ns0, s1)"
    and add: "addStep rnd ''Starting with the following nodes:'' (Some (sort_by_freq s1 ns0)) [] s1 = Some s2"
    and ml: "merge_loop rnd (sort_by_freq s1 ns0) s2 = Some (ns2, s3)"
    and sF: "sF = s3\<lparr>steps := steps s3 @ [final_step]\<rparr>"
    by (rule buildTree_Some)
  from merge_loop_loop_state [OF ml loop_state.enter [OF cl add]]
  have ls: "loop_state rnd fm s0 ns2 s3" by simp
  from buildTree_log [OF run] obtain cs0 ms where
    log: "steps sF =
           \<lparr>description = ''Starting with the following nodes:'', nodes = cs0, highlightNodes = []\<rparr>
             # ms @ [final_step]"
    by blast
  have "highlightNodes (hd (steps sF)) = []" by (simp add: log)
  moreover have "highlightNodes (last (steps sF)) = []" by (simp add: log final_step_def)
  ultimately show "\<exists>r sF ns s.
            buildTree rnd fm s0 = Some (r, sF) \<and>
            highlightNodes (hd (steps sF)) = [] \<and> highlightNodes (last (steps sF)) = [] \<and>
            loop_state rnd fm s0 ns s \<and> sF = s\<lparr>steps := steps s @ [final_step]\<rparr>"
    using run ls sF by blast
next
  from loop_state_enter [of rnd fm s0] assms
  show "\<exists>ns s. loop_state rnd fm s0 ns s \<and> 1 < length ns" by auto
next
  fix ns s
  assume "loop_state rnd fm s0 ns s \<and> 1 < length ns"
  then have ls: "loop_state rnd fm s0 ns s" and two: "2 \<le> length ns" by simp_all
  from loop_state_forest [OF ls] obtain ts where
    f: "list_all2 (repr (heap s)) (map Some ns) ts"
    by blast
  obtain a b rest t1 t2 trest cs ts' s' i where
    srt: "sort_by_freq s ns = a # b # rest"
    and f0: "list_all2 (repr (heap s)) (map Some (a # b # rest)) (t1 # t2 # trest)"
    and "mset (t1 # t2 # trest) = mset ts"
    and body: "loop_body rnd ns s = Some (i # rest, s')"
    and f1: "list_all2 (repr (heap s')) (map Some (i # rest))
           (Node i None (root_freq t1 + root_freq t2) t1 t2 (rnd (draws s' - 1)) # trest)"
    and st: "steps s' = steps s @
           [\<lparr>description = combining_description (heap s ! a) (heap s ! b), nodes = Some cs,
             highlightNodes = [id' (heap s ! a), id' (heap s ! b)]\<rparr>]"
    and "list_all2 (repr (heap s')) cs ts'"
    and "list_all2 same_content
           (Node (length (heap s)) None (root_freq t1 + root_freq t2) t1 t2 (rnd (draws s)) # trest) ts'"
    and "kept (heap s) (heap s')" and "same_but_log s s'" and "draws s < draws s' - 1"
    and "i = length (heap s') - 1" and fresh: "length (heap s) < i"
    by (rule loop_body_forest [OF f two, of rnd])
  from f0 have ra: "repr (heap s) (Some a) t1" and rb: "repr (heap s) (Some b) t2" by simp_all
  have fa: "freq (heap s ! a) = root_freq t1" and fb: "freq (heap s ! b) = root_freq t2"
    using repr_root(1) [OF ra] repr_root(1) [OF rb] by simp_all
  from ra rb have refs: "ref t1 = Some a" "ref t2 = Some b" by (simp_all add: repr_def)
  from f1 have "repr (heap s') (Some i)
                  (Node i None (root_freq t1 + root_freq t2) t1 t2 (rnd (draws s' - 1)))"
    by simp
  then have cell: "heap s' ! i = \<lparr>char = None, freq = freq (heap s ! a) + freq (heap s ! b),
                               left = Some a, right = Some b, id' = rnd (draws s' - 1)\<rparr>"
    by (simp add: repr_def refs fa fb)
  have "sorted (map (\<lambda>a. freq (heap s ! a)) (a # b # rest))"
    using sort_by_freq_sorted [of s ns] by (simp only: srt)
  note so = sorted_front [OF this]
  have ms: "mset (a # b # rest) = mset ns"
    using sort_by_freq_mset [of s ns] by (simp only: srt)
  show "\<exists>a b rest i s' cs.
               sort_by_freq s ns = a # b # rest \<and> mset (a # b # rest) = mset ns \<and>
               freq (heap s ! a) \<le> freq (heap s ! b) \<and>
               (\<forall>c \<in> set rest. freq (heap s ! b) \<le> freq (heap s ! c)) \<and>
               loop_body rnd ns s = Some (i # rest, s') \<and>
               length (heap s) < i \<and>
               heap s' ! i = \<lparr>char = None, freq = freq (heap s ! a) + freq (heap s ! b),
                               left = Some a, right = Some b, id' = rnd (draws s' - 1)\<rparr> \<and>
               steps s' = steps s @
                 [\<lparr>description = combining_description (heap s ! a) (heap s ! b), nodes = Some cs,
                   highlightNodes = [id' (heap s ! a), id' (heap s ! b)]\<rparr>]"
    by (intro exI conjI) (rule srt, rule ms, rule so(1), rule so(2), rule body, rule fresh,
        rule cell, rule st)
qed


theorem merge_iteration_witness:
  "2 \<le> length fm3 \<and>
   (\<exists>ns s. loop_state rnd0 fm3 new_HuffmanCoding ns s \<and> 1 < length ns \<and>
      (\<exists>a b rest i s' cs.
         sort_by_freq s ns = a # b # rest \<and> mset (a # b # rest) = mset ns \<and>
         freq (heap s ! a) \<le> freq (heap s ! b) \<and>
         (\<forall>c \<in> set rest. freq (heap s ! b) \<le> freq (heap s ! c)) \<and>
         loop_body rnd0 ns s = Some (i # rest, s') \<and>
         length (heap s) < i \<and>
         heap s' ! i = \<lparr>char = None, freq = freq (heap s ! a) + freq (heap s ! b),
                         left = Some a, right = Some b, id' = rnd0 (draws s' - 1)\<rparr> \<and>
         steps s' = steps s @
           [\<lparr>description = combining_description (heap s ! a) (heap s ! b), nodes = Some cs,
             highlightNodes = [id' (heap s ! a), id' (heap s ! b)]\<rparr>]))"
proof -
  have h: "2 \<le> length fm3" by (simp add: fm3_def)
  note m = merge_iteration [OF h, of rnd0 new_HuffmanCoding]
  from m obtain ns s where ls: "loop_state rnd0 fm3 new_HuffmanCoding ns s \<and> 1 < length ns"
    by (elim exE conjE) (rule that, rule conjI)
  from m have "loop_state rnd0 fm3 new_HuffmanCoding ns s \<and> 1 < length ns \<longrightarrow>
      (\<exists>a b rest i s' cs.
         sort_by_freq s ns = a # b # rest \<and> mset (a # b # rest) = mset ns \<and>
         freq (heap s ! a) \<le> freq (heap s ! b) \<and>
         (\<forall>c \<in> set rest. freq (heap s ! b) \<le> freq (heap s ! c)) \<and>
         loop_body rnd0 ns s = Some (i # rest, s') \<and>
         length (heap s) < i \<and>
         heap s' ! i = \<lparr>char = None, freq = freq (heap s ! a) + freq (heap s ! b),
                         left = Some a, right = Some b, id' = rnd0 (draws s' - 1)\<rparr> \<and>
         steps s' = steps s @
           [\<lparr>description = combining_description (heap s ! a) (heap s ! b), nodes = Some cs,
             highlightNodes = [id' (heap s ! a), id' (heap s ! b)]\<rparr>])"
    by (elim conjE allE)
  with ls h show ?thesis by blast
qed

section \<open>Snapshots\<close>

lemma generateCodes_frame:
  assumes "generateCodes p path s = Some s'"
  shows "heap s' = heap s \<and> steps s' = steps s"
proof (rule generateCodes.raw_induct
    [where P = "\<lambda>p path s s'. heap s' = heap s \<and> steps s' = steps s", OF _ assms],
    goal_cases)
  case (1 g p path s s')
  show ?case
  proof (cases p)
    case None
    with 1(2) show ?thesis by simp
  next
    case (Some a)
    show ?thesis
    proof (cases "isLeaf (heap s ! a)")
      case True
      with 1(2) Some show ?thesis by auto
    next
      case False
      with 1(2) Some obtain s1 where a: "g (left (heap s ! a)) (path @ ''0'') s = Some s1"
        and b: "g (right (heap s1 ! a)) (path @ ''1'') s1 = Some s'"
        by (auto split: bind_splits)
      from 1(1) [OF a] 1(1) [OF b] show ?thesis by simp
    qed
  qed
qed

lemma list_repr_frame:
  assumes "list_all2 (repr h) cs ts"
    and "\<forall>a \<in> \<Union>(addrs ` set ts). a < length h' \<and> h' ! a = h ! a"
  shows "list_all2 (repr h') cs ts"
  using assms(1)
proof (rule list.rel_mono_strong)
  fix c t assume t: "t \<in> set ts" and r: "repr h c t"
  from r have "heap_tree h t" by (simp add: repr_def)
  moreover have "a < length h' \<and> h' ! a = h ! a" if "a \<in> addrs t" for a
    using assms(2) t that by blast
  ultimately have "heap_tree h' t" by (rule heap_tree_frame)
  with r show "repr h' c t" by (simp add: repr_def)
qed

lemma take_nth_same:
  assumes "take (length xs) ys = xs" and "k < length xs"
  shows "ys ! k = xs ! k"
proof -
  have "take (length xs) ys ! k = ys ! k" using assms(2) by simp
  with assms(1) show ?thesis by simp
qed

text \<open>
  C3. First, what \<open>addStep\<close> records: called with an array of nodes that are roots of
  well-formed structures \<open>ts\<close>, it returns, and the step it appends holds references to
  structures \<open>ts'\<close> with the same content as \<open>ts\<close> (identical id, symbol and frequency at
  every node, children copied recursively), every cell of which was allocated during the
  call, so none is a cell of the nodes copied; and the snapshot reads the same in every
  store that keeps those cells, whatever happened to all the others.

  Second, what later work does to a step already in the log: whenever a forest recorded at
  index \<open>k\<close> reads as \<open>ts\<close>, it reads as \<open>ts\<close>, and is still the step at index \<open>k\<close>, after
  recording another step, after creating a node, after a run of the loop body, after the
  whole rest of the loop, and after deriving codes.
\<close>

theorem snapshot_independent:
  "(list_all2 (repr (heap s)) (map Some ns) ts \<longrightarrow>
      (\<exists>cs ts' s'.
         addStep rnd d (Some ns) hl s = Some s' \<and>
         steps s' = steps s @ [\<lparr>description = d, nodes = Some cs, highlightNodes = hl\<rparr>] \<and>
         list_all2 (repr (heap s')) cs ts' \<and> list_all2 same_content ts ts' \<and>
         (\<forall>t' \<in> set ts'. addrs t' \<subseteq> {length (heap s) ..< length (heap s')}) \<and>
         (\<forall>h'. (\<forall>a \<in> \<Union>(addrs ` set ts'). a < length h' \<and> h' ! a = heap s' ! a) \<longrightarrow>
               list_all2 (repr h') cs ts'))) \<and>
   (\<forall>k cs us. k < length (steps s) \<and> nodes (steps s ! k) = Some cs \<and>
        list_all2 (repr (heap s)) cs us \<longrightarrow>
      (\<forall>d' ns' hl' s'. addStep rnd d' ns' hl' s = Some s' \<longrightarrow>
         steps s' ! k = steps s ! k \<and> list_all2 (repr (heap s')) cs us) \<and>
      (\<forall>c f l r. steps (snd (new_HuffmanNode rnd c f l r s)) ! k = steps s ! k \<and>
         list_all2 (repr (heap (snd (new_HuffmanNode rnd c f l r s)))) cs us) \<and>
      (\<forall>xs xs' s'. loop_body rnd xs s = Some (xs', s') \<longrightarrow>
         steps s' ! k = steps s ! k \<and> list_all2 (repr (heap s')) cs us) \<and>
      (\<forall>xs xs' s'. merge_loop rnd xs s = Some (xs', s') \<longrightarrow>
         steps s' ! k = steps s ! k \<and> list_all2 (repr (heap s')) cs us) \<and>
      (\<forall>p path s'. generateCodes p path s = Some s' \<longrightarrow>
         steps s' ! k = steps s ! k \<and> list_all2 (repr (heap s')) cs us))"
proof (intro conjI impI allI)
  assume f: "list_all2 (repr (heap s)) (map Some ns) ts"
  from addStep_forest [OF f, of rnd d hl] obtain cs ts' s' where
    a: "addStep rnd d (Some ns) hl s = Some s'"
    and b: "steps s' = steps s @ [\<lparr>description = d, nodes = Some cs, highlightNodes = hl\<rparr>]"
    and c: "list_all2 (repr (heap s')) cs ts'" and e: "list_all2 same_content ts ts'"
    and g: "\<forall>t' \<in> set ts'. addrs t' \<subseteq> {length (heap s) ..< length (heap s')}"
    by blast
  have i: "\<forall>h'. (\<forall>a \<in> \<Union>(addrs ` set ts'). a < length h' \<and> h' ! a = heap s' ! a) \<longrightarrow>
               list_all2 (repr h') cs ts'"
    by (intro allI impI) (rule list_repr_frame [OF c])
  show "\<exists>cs ts' s'.
         addStep rnd d (Some ns) hl s = Some s' \<and>
         steps s' = steps s @ [\<lparr>description = d, nodes = Some cs, highlightNodes = hl\<rparr>] \<and>
         list_all2 (repr (heap s')) cs ts' \<and> list_all2 same_content ts ts' \<and>
         (\<forall>t' \<in> set ts'. addrs t' \<subseteq> {length (heap s) ..< length (heap s')}) \<and>
         (\<forall>h'. (\<forall>a \<in> \<Union>(addrs ` set ts'). a < length h' \<and> h' ! a = heap s' ! a) \<longrightarrow>
               list_all2 (repr h') cs ts')"
    by (intro exI conjI) (rule a, rule b, rule c, rule e, rule g, rule i)
next
  fix k cs us d' ns' hl' s'
  assume h: "k < length (steps s) \<and> nodes (steps s ! k) = Some cs \<and>
        list_all2 (repr (heap s)) cs us"
    and a: "addStep rnd d' ns' hl' s = Some s'"
  note fr = addStep_frame [OF a]
  from fr(3) h show "steps s' ! k = steps s ! k" by (auto simp: nth_append)
  from h fr(1) show "list_all2 (repr (heap s')) cs us" by (blast intro: list_repr_kept)
next
  fix k cs us c f l r
  assume h: "k < length (steps s) \<and> nodes (steps s ! k) = Some cs \<and>
        list_all2 (repr (heap s)) cs us"
  show "steps (snd (new_HuffmanNode rnd c f l r s)) ! k = steps s ! k"
    by (simp add: new_HuffmanNode_def)
  have "kept (heap s) (heap (snd (new_HuffmanNode rnd c f l r s)))"
    by (simp add: kept_append)
  with h show "list_all2 (repr (heap (snd (new_HuffmanNode rnd c f l r s)))) cs us"
    by (blast intro: list_repr_kept)
next
  fix k cs us xs xs' s'
  assume h: "k < length (steps s) \<and> nodes (steps s ! k) = Some cs \<and>
        list_all2 (repr (heap s)) cs us"
    and a: "loop_body rnd xs s = Some (xs', s')"
  note fr = loop_body_frame [OF a]
  from fr(3) h show "steps s' ! k = steps s ! k" by (auto simp: nth_append)
  from h fr(1) show "list_all2 (repr (heap s')) cs us" by (blast intro: list_repr_kept)
next
  fix k cs us xs xs' s'
  assume h: "k < length (steps s) \<and> nodes (steps s ! k) = Some cs \<and>
        list_all2 (repr (heap s)) cs us"
    and a: "merge_loop rnd xs s = Some (xs', s')"
  from merge_loop_frame [OF a] have k: "kept (heap s) (heap s')"
    and t: "take (length (steps s)) (steps s') = steps s"
    by simp_all
  from h show "steps s' ! k = steps s ! k" by (intro take_nth_same [OF t]) simp
  from h k show "list_all2 (repr (heap s')) cs us" by (blast intro: list_repr_kept)
next
  fix k cs us p path s'
  assume h: "k < length (steps s) \<and> nodes (steps s ! k) = Some cs \<and>
        list_all2 (repr (heap s)) cs us"
    and a: "generateCodes p path s = Some s'"
  from generateCodes_frame [OF a] h
  show "steps s' ! k = steps s ! k" and "list_all2 (repr (heap s')) cs us" by simp_all
qed


text \<open>A store with the two leaves of \<open>{A: 1, B: 1}\<close> and an empty log.\<close>

definition leaves_AB :: state where
  "leaves_AB = snd (create_leaves rnd0 fm2 [] new_HuffmanCoding)"

theorem snapshot_independent_witness:
  "list_all2 (repr (heap leaves_AB)) (map Some [0 ..< length fm2]) (leaf_trees rnd0 0 0 fm2) \<and>
   (\<exists>cs ts' s1 s2.
      addStep rnd0 ''one'' (Some [0 ..< length fm2]) [] leaves_AB = Some s1 \<and>
      steps s1 = steps leaves_AB @ [\<lparr>description = ''one'', nodes = Some cs, highlightNodes = []\<rparr>] \<and>
      list_all2 (repr (heap s1)) cs ts' \<and> list_all2 same_content (leaf_trees rnd0 0 0 fm2) ts' \<and>
      0 < length (steps s1) \<and> nodes (steps s1 ! 0) = Some cs \<and>
      addStep rnd0 ''two'' (Some [0 ..< length fm2]) [] s1 = Some s2 \<and>
      steps s2 ! 0 = steps s1 ! 0 \<and> list_all2 (repr (heap s2)) cs ts')"
proof -
  let ?ns = "[0 ..< length fm2]"
  let ?ts = "leaf_trees rnd0 0 0 fm2"
  have hp: "heap leaves_AB = [] @ leaf_cells rnd0 0 fm2" and st: "steps leaves_AB = []"
    by (simp_all add: leaves_AB_def create_leaves_eq new_HuffmanCoding_def)
  have "list_all2 (repr ([] @ leaf_cells rnd0 0 fm2)) (map Some [0 ..< 0 + length fm2]) ?ts"
    by (rule leaf_trees_repr) simp
  then have f: "list_all2 (repr (heap leaves_AB)) (map Some ?ns) ?ts"
    by (simp add: hp)
  from snapshot_independent [where s = leaves_AB and ns = ?ns and ts = ?ts and rnd = rnd0
      and d = "''one''" and hl = "[]", THEN conjunct1, rule_format, OF f]
  obtain cs ts' s1 where
    a1: "addStep rnd0 ''one'' (Some ?ns) [] leaves_AB = Some s1"
    and b1: "steps s1 = steps leaves_AB @ [\<lparr>description = ''one'', nodes = Some cs, highlightNodes = []\<rparr>]"
    and c1: "list_all2 (repr (heap s1)) cs ts'" and e1: "list_all2 same_content ?ts ts'"
    by (elim exE conjE) (rule that)
  have l1: "0 < length (steps s1)" and n1: "nodes (steps s1 ! 0) = Some cs"
    by (simp_all add: b1 st)
  have f1: "list_all2 (repr (heap s1)) (map Some ?ns) ?ts"
    by (rule list_repr_kept [OF f addStep_frame(1) [OF a1]])
  from addStep_forest [OF f1, of rnd0 "''two''" "[]"] obtain s2 where
    a2: "addStep rnd0 ''two'' (Some ?ns) [] s1 = Some s2"
    by blast
  have h: "0 < length (steps s1) \<and> nodes (steps s1 ! 0) = Some cs \<and>
             list_all2 (repr (heap s1)) cs ts'"
    using l1 n1 c1 by simp
  from snapshot_independent [where s = s1 and rnd = rnd0, THEN conjunct2, rule_format, OF h,
      THEN conjunct1, rule_format, OF a2]
  have k: "steps s2 ! 0 = steps s1 ! 0" and r: "list_all2 (repr (heap s2)) cs ts'"
    by simp_all
  have "\<exists>cs ts' s1 s2.
      addStep rnd0 ''one'' (Some ?ns) [] leaves_AB = Some s1 \<and>
      steps s1 = steps leaves_AB @ [\<lparr>description = ''one'', nodes = Some cs, highlightNodes = []\<rparr>] \<and>
      list_all2 (repr (heap s1)) cs ts' \<and> list_all2 same_content ?ts ts' \<and>
      0 < length (steps s1) \<and> nodes (steps s1 ! 0) = Some cs \<and>
      addStep rnd0 ''two'' (Some ?ns) [] s1 = Some s2 \<and>
      steps s2 ! 0 = steps s1 ! 0 \<and> list_all2 (repr (heap s2)) cs ts'"
    by (intro exI conjI) (rule a1, rule b1, rule c1, rule e1, rule l1, rule n1, rule a2,
        rule k, rule r)
  with f show ?thesis by (rule conjI)
qed

section \<open>Calls that succeed and calls that throw\<close>

lemma map_cloneNode_length:
  "map_cloneNode rnd ns s = Some (cs, s') \<Longrightarrow> length cs = length ns"
proof (induction ns arbitrary: s cs)
  case Nil
  then show ?case by simp
next
  case (Cons n ns)
  from Cons.prems obtain c s1 cs1 where
    "map_cloneNode rnd ns s1 = Some (cs1, s')" and "cs = c # cs1"
    by (auto split: bind_splits)
  with Cons.IH show ?case by simp
qed

lemma buildTree_initial:
  assumes "buildTree rnd fm s = Some (r, sF)"
  shows "\<exists>cs0. hd (steps sF) =
           \<lparr>description = ''Starting with the following nodes:'', nodes = Some cs0,
             highlightNodes = []\<rparr> \<and> length cs0 = length fm"
proof -
  from assms obtain ns0 s1 s2 ns2 s3 where
    cl: "create_leaves rnd fm [] (s\<lparr>steps := [], currentStep := 0\<rparr>) = (ns0, s1)"
    and add: "addStep rnd ''Starting with the following nodes:'' (Some (sort_by_freq s1 ns0)) [] s1 = Some s2"
    and ml: "merge_loop rnd (sort_by_freq s1 ns0) s2 = Some (ns2, s3)"
    and sF: "sF = s3\<lparr>steps := steps s3 @ [final_step]\<rparr>"
    by (rule buildTree_Some)
  from cl have st1: "steps s1 = []" and len0: "length ns0 = length fm"
    by (auto simp: create_leaves_eq)
  from add obtain cs sm where m: "map_cloneNode rnd (sort_by_freq s1 ns0) s1 = Some (cs, sm)"
    and s2: "s2 = sm\<lparr>steps := steps sm @
               [\<lparr>description = ''Starting with the following nodes:'', nodes = Some cs,
                 highlightNodes = []\<rparr>]\<rparr>"
    by (auto simp: addStep_def split: bind_splits)
  from map_cloneNode_frame [OF m] have "steps sm = steps s1" by (simp add: same_engine_def)
  then have st2: "steps s2 = [\<lparr>description = ''Starting with the following nodes:'',
                     nodes = Some cs, highlightNodes = []\<rparr>]"
    by (simp add: s2 st1)
  from merge_loop_steps [OF ml] obtain ms where "steps s3 = steps s2 @ ms" by blast
  then have "hd (steps sF) = \<lparr>description = ''Starting with the following nodes:'',
                     nodes = Some cs, highlightNodes = []\<rparr>"
    by (simp add: sF st2)
  moreover have "length cs = length fm"
    using map_cloneNode_length [OF m] len0 by simp
  ultimately show ?thesis by blast
qed

text \<open>
  C7, as the code has it. On a \<^verbatim>\<open>Map\<close> the call always returns, and the log it leaves is
  the one of this call alone, whatever log and cursor there were before: the initial step
  with a forest of one node for each entry, one merge step less than there are entries, and
  the final step, with the cursor at 0; the result is no node for the empty map, and
  otherwise the root of a full tree whose leaves are the symbols of the map. On \<^verbatim>\<open>null\<close>
  and on an object that is not a \<^verbatim>\<open>Map\<close> the call throws, and the state at the throw has
  the empty log and the cursor 0: the log recorded before is not kept.
\<close>

theorem buildTree_call_outcomes:
  "(\<exists>r s' cs0 ms.
      buildTree_call rnd (JS_Map fm) s = Some (Inr (r, s')) \<and>
      buildTree_call rnd (JS_Map fm) (s\<lparr>steps := old, currentStep := c\<rparr>) = Some (Inr (r, s')) \<and>
      steps s' =
        \<lparr>description = ''Starting with the following nodes:'', nodes = Some cs0,
          highlightNodes = []\<rparr> # ms @ [final_step] \<and>
      length cs0 = length fm \<and> length ms = length fm - 1 \<and> list_all is_merge_step ms \<and>
      currentStep s' = 0 \<and>
      (fm = [] \<longrightarrow> r = None) \<and>
      (fm \<noteq> [] \<longrightarrow>
         (\<exists>a t. r = Some a \<and> repr (heap s') (Some a) t \<and> full t \<and>
            mset (leaves t) = mset (map (Some \<circ> fst) fm)))) \<and>
   buildTree_call rnd JS_null s = Some (Inl (TypeError, s\<lparr>steps := [], currentStep := 0\<rparr>)) \<and>
   buildTree_call rnd (JS_object props) s
     = Some (Inl (TypeError, s\<lparr>steps := [], currentStep := 0\<rparr>))"
proof (intro conjI)
  show "buildTree_call rnd JS_null s = Some (Inl (TypeError, s\<lparr>steps := [], currentStep := 0\<rparr>))"
    by (simp add: buildTree_call_def)
  show "buildTree_call rnd (JS_object props) s
          = Some (Inl (TypeError, s\<lparr>steps := [], currentStep := 0\<rparr>))"
    by (simp add: buildTree_call_def)
  have same: "buildTree rnd fm (s\<lparr>steps := old, currentStep := c\<rparr>) = buildTree rnd fm s"
    by (simp add: buildTree_def)
  show "\<exists>r s' cs0 ms.
      buildTree_call rnd (JS_Map fm) s = Some (Inr (r, s')) \<and>
      buildTree_call rnd (JS_Map fm) (s\<lparr>steps := old, currentStep := c\<rparr>) = Some (Inr (r, s')) \<and>
      steps s' =
        \<lparr>description = ''Starting with the following nodes:'', nodes = Some cs0,
          highlightNodes = []\<rparr> # ms @ [final_step] \<and>
      length cs0 = length fm \<and> length ms = length fm - 1 \<and> list_all is_merge_step ms \<and>
      currentStep s' = 0 \<and>
      (fm = [] \<longrightarrow> r = None) \<and>
      (fm \<noteq> [] \<longrightarrow>
         (\<exists>a t. r = Some a \<and> repr (heap s') (Some a) t \<and> full t \<and>
            mset (leaves t) = mset (map (Some \<circ> fst) fm)))"
  proof (cases "fm = []")
    case True
    let ?s' = "s\<lparr>steps := [\<lparr>description = ''Starting with the following nodes:'',
                               nodes = Some [], highlightNodes = []\<rparr>, final_step],
                    currentStep := 0\<rparr>"
    have run: "buildTree rnd fm s = Some (None, ?s')"
      unfolding True by (rule buildTree_empty)
    show ?thesis
    proof (intro exI conjI)
      show "buildTree_call rnd (JS_Map fm) s = Some (Inr (None, ?s'))"
        by (simp add: buildTree_call_def run)
      show "buildTree_call rnd (JS_Map fm) (s\<lparr>steps := old, currentStep := c\<rparr>)
              = Some (Inr (None, ?s'))"
        by (simp add: buildTree_call_def same run)
      show "steps ?s' = \<lparr>description = ''Starting with the following nodes:'', nodes = Some [],
          highlightNodes = []\<rparr> # [] @ [final_step]"
        by simp
      show "length ([] :: addr option list) = length fm" by (simp add: True)
      show "length ([] :: step list) = length fm - 1" by (simp add: True)
      show "list_all is_merge_step []" by simp
      show "currentStep ?s' = 0" by simp
      show "fm = [] \<longrightarrow> (None :: addr option) = None" by simp
      show "fm \<noteq> [] \<longrightarrow>
         (\<exists>a t. (None :: addr option) = Some a \<and> repr (heap ?s') (Some a) t \<and> full t \<and>
            mset (leaves t) = mset (map (Some \<circ> fst) fm))"
        by (simp add: True)
    qed
  next
    case False
    obtain a t s3 cs1 where
      run: "buildTree rnd fm s = Some (Some a, s3\<lparr>steps := steps s3 @ [final_step]\<rparr>)"
      and ra: "repr (heap s3) (Some a) t" and ft: "full t"
      and su: "summary [t] = (sum_list (map snd fm), mset (map (Some \<circ> fst) fm))"
      and len: "length (steps s3) = length fm"
      and "hd (steps s3) = \<lparr>description = ''Starting with the following nodes:'', nodes = Some cs1,
           highlightNodes = []\<rparr>"
      and "2 \<le> length fm \<Longrightarrow> last_merge s3 (root_freq t)"
      and sb: "same_but_log (s\<lparr>currentStep := 0\<rparr>) s3"
      by (rule buildTree_run [OF False, of rnd s]) blast
    let ?s' = "s3\<lparr>steps := steps s3 @ [final_step]\<rparr>"
    from buildTree_log [OF run] obtain csx ms where
      log: "steps ?s' =
           \<lparr>description = ''Starting with the following nodes:'', nodes = csx, highlightNodes = []\<rparr>
             # ms @ [final_step]"
      and ms: "list_all is_merge_step ms"
      by blast
    from buildTree_initial [OF run] obtain cs0 where
      h: "hd (steps ?s') = \<lparr>description = ''Starting with the following nodes:'', nodes = Some cs0,
             highlightNodes = []\<rparr>"
      and l0: "length cs0 = length fm"
      by blast
    from h log have csx: "csx = Some cs0" by simp
    have lm: "length ms = length fm - 1" using log len by simp
    have lv: "mset (leaves t) = mset (map (Some \<circ> fst) fm)" using su by (simp add: summary_def)
    show ?thesis
    proof (intro exI conjI)
      show "buildTree_call rnd (JS_Map fm) s = Some (Inr (Some a, ?s'))"
        by (simp add: buildTree_call_def run)
      show "buildTree_call rnd (JS_Map fm) (s\<lparr>steps := old, currentStep := c\<rparr>)
              = Some (Inr (Some a, ?s'))"
        by (simp add: buildTree_call_def same run)
      show "steps ?s' = \<lparr>description = ''Starting with the following nodes:'', nodes = Some cs0,
          highlightNodes = []\<rparr> # ms @ [final_step]"
        using log by (simp only: csx)
      show "length cs0 = length fm" by (rule l0)
      show "length ms = length fm - 1" by (rule lm)
      show "list_all is_merge_step ms" by (rule ms)
      show "currentStep ?s' = 0" using sb by (simp add: same_but_log_def)
      show "fm = [] \<longrightarrow> Some a = None" using False by simp
      show "fm \<noteq> [] \<longrightarrow>
         (\<exists>a' t. Some a = Some a' \<and> repr (heap ?s') (Some a') t \<and> full t \<and>
            mset (leaves t) = mset (map (Some \<circ> fst) fm))"
        using ra ft lv by auto
    qed
  qed
qed

text \<open>An engine holding the log of \<open>{A: 1, B: 2, C: 3}\<close>, with the cursor on step 2.\<close>

definition logged_ABC :: state where
  "logged_ABC = built_ABC\<lparr>currentStep := 2\<rparr>"

theorem buildTree_call_outcomes_witness:
  "fm3 \<noteq> [] \<and>
   (\<exists>s' cs0 ms a t.
      buildTree_call rnd0 (JS_Map fm3) logged_ABC = Some (Inr (Some a, s')) \<and>
      steps s' =
        \<lparr>description = ''Starting with the following nodes:'', nodes = Some cs0,
          highlightNodes = []\<rparr> # ms @ [final_step] \<and>
      length cs0 = 3 \<and> length ms = 2 \<and> list_all is_merge_step ms \<and> currentStep s' = 0 \<and>
      repr (heap s') (Some a) t \<and> full t \<and> mset (leaves t) = mset (map (Some \<circ> fst) fm3)) \<and>
   (\<exists>s' cs0 ms.
      buildTree_call rnd0 (JS_Map []) logged_ABC = Some (Inr (None, s')) \<and>
      steps s' =
        \<lparr>description = ''Starting with the following nodes:'', nodes = Some cs0,
          highlightNodes = []\<rparr> # ms @ [final_step] \<and>
      length cs0 = 0 \<and> length ms = 0) \<and>
   buildTree_call rnd0 JS_null logged_ABC
     = Some (Inl (TypeError, logged_ABC\<lparr>steps := [], currentStep := 0\<rparr>))"
proof -
  have ne: "fm3 \<noteq> []" and l3: "length fm3 = 3" by (simp_all add: fm3_def)
  note o3 = buildTree_call_outcomes
    [where rnd = rnd0 and fm = fm3 and s = logged_ABC and old = "[]" and c = 0 and props = "[]"]
  from o3 [THEN conjunct1] obtain r s' cs0 ms where
    b: "buildTree_call rnd0 (JS_Map fm3) logged_ABC = Some (Inr (r, s'))"
    and st: "steps s' =
        \<lparr>description = ''Starting with the following nodes:'', nodes = Some cs0,
          highlightNodes = []\<rparr> # ms @ [final_step]"
    and lc: "length cs0 = length fm3" and lm: "length ms = length fm3 - 1"
    and ms: "list_all is_merge_step ms" and cu: "currentStep s' = 0"
    and root: "fm3 \<noteq> [] \<longrightarrow>
         (\<exists>a t. r = Some a \<and> repr (heap s') (Some a) t \<and> full t \<and>
            mset (leaves t) = mset (map (Some \<circ> fst) fm3))"
    by (elim exE conjE) (rule that)
  from root [rule_format, OF ne] obtain a t where r: "r = Some a"
    and ra: "repr (heap s') (Some a) t" and ft: "full t"
    and lv: "mset (leaves t) = mset (map (Some \<circ> fst) fm3)"
    by (elim exE conjE) (rule that)
  have p1: "\<exists>s' cs0 ms a t.
      buildTree_call rnd0 (JS_Map fm3) logged_ABC = Some (Inr (Some a, s')) \<and>
      steps s' =
        \<lparr>description = ''Starting with the following nodes:'', nodes = Some cs0,
          highlightNodes = []\<rparr> # ms @ [final_step] \<and>
      length cs0 = 3 \<and> length ms = 2 \<and> list_all is_merge_step ms \<and> currentStep s' = 0 \<and>
      repr (heap s') (Some a) t \<and> full t \<and> mset (leaves t) = mset (map (Some \<circ> fst) fm3)"
    using b [unfolded r] st lc lm ms cu ra ft lv unfolding l3
    by (intro exI conjI) simp_all
  note o0 = buildTree_call_outcomes
    [where rnd = rnd0 and fm = "[]" and s = logged_ABC and old = "[]" and c = 0 and props = "[]"]
  from o0 [THEN conjunct1] obtain r0 s0 cs00 ms0 where
    b0: "buildTree_call rnd0 (JS_Map []) logged_ABC = Some (Inr (r0, s0))"
    and st0: "steps s0 =
        \<lparr>description = ''Starting with the following nodes:'', nodes = Some cs00,
          highlightNodes = []\<rparr> # ms0 @ [final_step]"
    and lc0: "length cs00 = length ([] :: (string \<times> int) list)"
    and lm0: "length ms0 = length ([] :: (string \<times> int) list) - 1"
    and none: "([] :: (string \<times> int) list) = [] \<longrightarrow> r0 = None"
    by (elim exE conjE) (rule that)
  from none have r0: "r0 = None" by simp
  have p2: "\<exists>s' cs0 ms.
      buildTree_call rnd0 (JS_Map []) logged_ABC = Some (Inr (None, s')) \<and>
      steps s' =
        \<lparr>description = ''Starting with the following nodes:'', nodes = Some cs0,
          highlightNodes = []\<rparr> # ms @ [final_step] \<and>
      length cs0 = 0 \<and> length ms = 0"
    using b0 [unfolded r0] st0 lc0 lm0
    by (intro exI conjI) simp_all
  from o3 have p3: "buildTree_call rnd0 JS_null logged_ABC
     = Some (Inl (TypeError, logged_ABC\<lparr>steps := [], currentStep := 0\<rparr>))"
    by (elim conjE)
  show ?thesis
    by (intro conjI) (rule ne, rule p1, rule p2, rule p3)
qed

text \<open>
  The claim as stated fails on a call with \<^verbatim>\<open>null\<close> made on an engine that holds a log
  of four steps with the cursor at 2: the call throws, and the log is empty and the cursor 0
  afterwards.
\<close>

theorem buildTree_call_counterexample:
  "length (steps logged_ABC) = 4 \<and> currentStep logged_ABC = 2 \<and>
   buildTree_call rnd0 JS_null logged_ABC
     = Some (Inl (TypeError, logged_ABC\<lparr>steps := [], currentStep := 0\<rparr>)) \<and>
   steps (logged_ABC\<lparr>steps := [], currentStep := 0\<rparr>) = [] \<and>
   steps (logged_ABC\<lparr>steps := [], currentStep := 0\<rparr>) \<noteq> steps logged_ABC \<and>
   currentStep (logged_ABC\<lparr>steps := [], currentStep := 0\<rparr>) = 0"
proof -
  have len: "length (steps logged_ABC) = 4"
    using arg_cong [OF built_ABC_nodes, of length] by (simp add: logged_ABC_def)
  then have "steps logged_ABC \<noteq> []" by auto
  with len show ?thesis
    by (simp add: buildTree_call_def logged_ABC_def)
qed

end
